theory Spec2Isabelle
  imports Main "HOL-Library.AList"
begin

section \<open>Python values\<close>

text \<open>
  The script \<^verbatim>\<open>scripts/generate-metadata.py\<close> works on what \<^verbatim>\<open>json.load\<close> returns:
  \<^verbatim>\<open>None\<close>, booleans, unbounded integers, floats, strings, lists and dictionaries with
  string keys. A dictionary is an association list in insertion order, read with
  \<open>map_of\<close> and written with \<open>AList.update\<close>, which like Python keeps the position of a
  key that is assigned again. A float is carried as the text Python's \<^verbatim>\<open>repr\<close> gives it
  (\<^verbatim>\<open>0.5\<close>, \<^verbatim>\<open>1e+16\<close>, \<^verbatim>\<open>nan\<close>, \<^verbatim>\<open>inf\<close>), which is all the script ever does with one.
  A string is a list of code points; \<open>char\<close> has 256 values, so the model covers the code
  points U+0000 to U+00FF.
\<close>

datatype json =
    JNull
  | JBool bool
  | JInt int
  | JFloat string
  | JStr string
  | JArr "json list"
  | JObj "(string \<times> json) list"

type_synonym dict = "(string \<times> json) list"

text \<open>Python's truth value of an object, as \<^verbatim>\<open>if x:\<close> and \<^verbatim>\<open>x or y\<close> test it.\<close>

fun truthy :: "json \<Rightarrow> bool" where
  "truthy JNull = False"
| "truthy (JBool b) = b"
| "truthy (JInt i) = (i \<noteq> 0)"
| "truthy (JFloat r) = (r \<noteq> ''0.0'' \<and> r \<noteq> ''-0.0'')"
| "truthy (JStr s) = (s \<noteq> [])"
| "truthy (JArr xs) = (xs \<noteq> [])"
| "truthy (JObj kvs) = (kvs \<noteq> [])"

text \<open>\<^verbatim>\<open>d.get(k)\<close> and \<^verbatim>\<open>d.get(k, default)\<close>.\<close>

definition dict_get_default :: "dict \<Rightarrow> string \<Rightarrow> json \<Rightarrow> json" where
  "dict_get_default d k dflt = (case map_of d k of None \<Rightarrow> dflt | Some v \<Rightarrow> v)"

definition dict_get :: "dict \<Rightarrow> string \<Rightarrow> json" where
  "dict_get d k = dict_get_default d k JNull"

text \<open>\<^verbatim>\<open>isinstance(x, dict)\<close>.\<close>

fun is_dict :: "json \<Rightarrow> bool" where
  "is_dict (JObj kvs) = True"
| "is_dict _ = False"

text \<open>\<^verbatim>\<open>x.get(k)\<close> where the source has already checked \<^verbatim>\<open>isinstance(x, dict)\<close>.\<close>

fun obj_get :: "json \<Rightarrow> string \<Rightarrow> json" where
  "obj_get (JObj kvs) k = dict_get kvs k"
| "obj_get _ k = JNull"

subsection \<open>Decimal and hexadecimal digits\<close>

definition digit_char :: "nat \<Rightarrow> char" where
  "digit_char n = char_of (48 + n)"

fun str_nat :: "nat \<Rightarrow> string" where
  "str_nat n = (if n < 10 then [digit_char n] else str_nat (n div 10) @ [digit_char (n mod 10)])"

declare str_nat.simps [simp del]

definition str_int :: "int \<Rightarrow> string" where
  "str_int i = (if i < 0 then CHR ''-'' # str_nat (nat (- i)) else str_nat (nat i))"

definition hex_digit :: "nat \<Rightarrow> char" where
  "hex_digit n = (if n < 10 then char_of (48 + n) else char_of (87 + n))"

definition hex2 :: "char \<Rightarrow> string" where
  "hex2 c = [hex_digit (of_char c div 16), hex_digit (of_char c mod 16)]"

fun join :: "string \<Rightarrow> string list \<Rightarrow> string" where
  "join sep [] = []"
| "join sep [x] = x"
| "join sep (x # y # ys) = x @ sep @ join sep (y # ys)"

subsection \<open>\<^verbatim>\<open>str\<close> and \<^verbatim>\<open>repr\<close>\<close>

definition is_printable :: "char \<Rightarrow> bool" where
  "is_printable c = (let n = (of_char c :: nat) in (32 \<le> n \<and> n < 127) \<or> (161 \<le> n \<and> n \<noteq> 173))"

definition repr_char :: "char \<Rightarrow> char \<Rightarrow> string" where
  "repr_char q c =
     (if c = q \<or> c = CHR 0x5C then [CHR 0x5C, c]
      else if c = CHR 0x09 then [CHR 0x5C, CHR ''t'']
      else if c = CHR 0x0A then [CHR 0x5C, CHR ''n'']
      else if c = CHR 0x0D then [CHR 0x5C, CHR ''r'']
      else if is_printable c then [c]
      else [CHR 0x5C, CHR ''x''] @ hex2 c)"

definition repr_str :: "string \<Rightarrow> string" where
  "repr_str s =
     (let q = (if CHR 0x27 \<in> set s \<and> CHR 0x22 \<notin> set s then CHR 0x22 else CHR 0x27)
      in [q] @ concat (map (repr_char q) s) @ [q])"

fun py_repr :: "json \<Rightarrow> string" where
  "py_repr JNull = ''None''"
| "py_repr (JBool b) = (if b then ''True'' else ''False'')"
| "py_repr (JInt i) = str_int i"
| "py_repr (JFloat r) = r"
| "py_repr (JStr s) = repr_str s"
| "py_repr (JArr xs) = ''['' @ join '', '' (map py_repr xs) @ '']''"
| "py_repr (JObj kvs) =
     ''{'' @ join '', '' (map (\<lambda>kv. repr_str (fst kv) @ '': '' @ py_repr (snd kv)) kvs) @ ''}''"

fun py_str :: "json \<Rightarrow> string" where
  "py_str (JStr s) = s"
| "py_str v = py_repr v"

subsection \<open>String methods\<close>

text \<open>\<^verbatim>\<open>s.lower()\<close> on the code points below 256: the ASCII capitals, and the Latin-1 capitals
  U+00C0 to U+00DE but for the multiplication sign U+00D7.\<close>

definition lower_char :: "char \<Rightarrow> char" where
  "lower_char c =
     (let n = (of_char c :: nat)
      in if (65 \<le> n \<and> n \<le> 90) \<or> (192 \<le> n \<and> n \<le> 222 \<and> n \<noteq> 215) then char_of (n + 32) else c)"

definition py_lower :: "string \<Rightarrow> string" where
  "py_lower s = map lower_char s"

text \<open>The character class \<^verbatim>\<open>[a-z0-9]\<close> of the slug's regular expression.\<close>

definition is_alnum :: "char \<Rightarrow> bool" where
  "is_alnum c =
     (let n = (of_char c :: nat) in (97 \<le> n \<and> n \<le> 122) \<or> (48 \<le> n \<and> n \<le> 57))"

text \<open>\<^verbatim>\<open>re.sub(r"[^a-z0-9]+", repl, s)\<close>: scanning from the left, the greedy \<^verbatim>\<open>+\<close> takes a
  whole run of characters outside the class and puts \<open>repl\<close> in its place.\<close>

function re_sub_non_alnum :: "string \<Rightarrow> string \<Rightarrow> string" where
  "re_sub_non_alnum repl [] = []"
| "re_sub_non_alnum repl (c # cs) =
     (if is_alnum c then c # re_sub_non_alnum repl cs
      else repl @ re_sub_non_alnum repl (dropWhile (\<lambda>x. \<not> is_alnum x) cs))"
  by pat_completeness auto
termination
  by (relation "measure (\<lambda>(repl, s). length s)")
     (auto simp: less_Suc_eq_le length_dropWhile_le)

text \<open>\<^verbatim>\<open>s.strip(chars)\<close> for a one-character \<open>chars\<close>.\<close>

definition py_strip :: "char \<Rightarrow> string \<Rightarrow> string" where
  "py_strip ch s = rev (dropWhile (\<lambda>x. x = ch) (rev (dropWhile (\<lambda>x. x = ch) s)))"

text \<open>\<^verbatim>\<open>s.endswith(suffix)\<close>.\<close>

definition endswith :: "string \<Rightarrow> string \<Rightarrow> bool" where
  "endswith s suffix = (length suffix \<le> length s \<and> drop (length s - length suffix) s = suffix)"

text \<open>\<^verbatim>\<open>s.replace(old, new)\<close>: every occurrence of \<open>old\<close>, found from the left, without
  overlaps. For an empty \<open>old\<close> Python puts \<open>new\<close> around every character.\<close>

fun replace_from :: "string \<Rightarrow> string \<Rightarrow> string \<Rightarrow> string" where
  "replace_from old new [] = []"
| "replace_from old new (c # cs) =
     (if old \<noteq> [] \<and> take (length old) (c # cs) = old
      then new @ replace_from old new (drop (length old - 1) cs)
      else c # replace_from old new cs)"

definition py_replace :: "string \<Rightarrow> string \<Rightarrow> string \<Rightarrow> string" where
  "py_replace old new s =
     (if old = [] then new @ concat (map (\<lambda>c. c # new) s) else replace_from old new s)"

subsection \<open>\<^verbatim>\<open>int(s)\<close> on a string\<close>

text \<open>
  Base ten: white space on both sides is dropped, one sign may follow, then decimal digits
  in which a single underscore may stand between two digits. Anything else raises
  \<^verbatim>\<open>ValueError\<close>, here \<open>None\<close>. Below U+0100 the characters \<^verbatim>\<open>int\<close> takes for white space are
  U+0009 to U+000D, the space, U+0085 and U+00A0, and the only decimal digits are 0 to 9.
\<close>

definition is_digit :: "char \<Rightarrow> bool" where
  "is_digit c = (let n = (of_char c :: nat) in 48 \<le> n \<and> n \<le> 57)"

definition digit_val :: "char \<Rightarrow> nat" where
  "digit_val c = of_char c - 48"

definition is_int_space :: "char \<Rightarrow> bool" where
  "is_int_space c = (let n = (of_char c :: nat) in (9 \<le> n \<and> n \<le> 13) \<or> n = 32 \<or> n = 133 \<or> n = 160)"

fun digits_val :: "nat \<Rightarrow> string \<Rightarrow> nat option" where
  "digits_val acc [] = Some acc"
| "digits_val acc (c # cs) =
     (if is_digit c then digits_val (10 * acc + digit_val c) cs
      else if c = CHR ''_'' then
        (case cs of
           [] \<Rightarrow> None
         | d # ds \<Rightarrow> if is_digit d then digits_val (10 * acc + digit_val d) ds else None)
      else None)"

definition unsigned_val :: "string \<Rightarrow> nat option" where
  "unsigned_val s =
     (case s of
        [] \<Rightarrow> None
      | c # cs \<Rightarrow> if is_digit c then digits_val (digit_val c) cs else None)"

definition py_int :: "string \<Rightarrow> int option" where
  "py_int s =
     (let t = rev (dropWhile is_int_space (rev (dropWhile is_int_space s)))
      in case t of
           [] \<Rightarrow> None
         | c # cs \<Rightarrow>
             if c = CHR ''-'' then map_option (\<lambda>n. - int n) (unsigned_val cs)
             else if c = CHR ''+'' then map_option int (unsigned_val cs)
             else map_option int (unsigned_val t))"

section \<open>The transformer: \<^verbatim>\<open>build_metadata\<close>\<close>

text \<open>One entry of the attribute list: \<^verbatim>\<open>{"trait_type": t, "value": v}\<close>.\<close>

definition trait :: "string \<Rightarrow> json \<Rightarrow> json" where
  "trait t v = JObj [(''trait_type'', JStr t), (''value'', v)]"

text \<open>
  The body of the loop over the stat keys. The source reads \<^verbatim>\<open>stat["value"]\<close> and
  \<^verbatim>\<open>stat["color"]\<close> only after \<^verbatim>\<open>stat.get\<close> has found them truthy, so the subscript is the
  value \<^verbatim>\<open>get\<close> returned.
\<close>

definition stat_traits :: "dict \<Rightarrow> string \<times> string \<Rightarrow> json list" where
  "stat_traits crd kd =
     (let stat_key = fst kd; display = snd kd;
          stat = dict_get crd stat_key
      in if truthy stat \<and> is_dict stat \<and> truthy (obj_get stat ''value'')
         then [trait display (JStr (py_str (obj_get stat ''value'')))] @
              (if truthy (obj_get stat ''color'')
               then [trait (display @ '' Gradient'') (obj_get stat ''color'')] else [])
         else [])"

definition stat_keys :: "(string \<times> string) list" where
  "stat_keys = [(''hp'', ''HP''), (''manaCost'', ''Mana Cost''), (''crit'', ''Crit'')]"

definition section_labels :: "(string \<times> string) list" where
  "section_labels =
     [(''header'', ''Header''),
      (''imageArea'', ''Image Area''),
      (''typeSection'', ''Type Section''),
      (''flavorText'', ''Flavor Text''),
      (''bottomSection'', ''Bottom Section''),
      (''stat'', ''Stat''),
      (''rarity'', ''Rarity Badge'')]"

text \<open>The body of the loop over \<^verbatim>\<open>section_labels.items()\<close>.\<close>

definition section_traits :: "json \<Rightarrow> string \<times> string \<Rightarrow> json list" where
  "section_traits theme kl =
     (let key = fst kl; label = snd kl;
          section = obj_get theme key
      in if \<not> truthy section \<or> \<not> is_dict section then []
         else
           (if truthy (obj_get section ''background'')
            then [trait (label @ '' Background'') (obj_get section ''background'')] else []) @
           (if truthy (obj_get section ''color'')
            then [trait (label @ '' Color'') (obj_get section ''color'')] else []) @
           (if truthy (obj_get section ''border'')
            then [trait (label @ '' Border'') (obj_get section ''border'')] else []) @
           (if truthy (obj_get section ''accentColor'')
            then [trait (label @ '' Accent'') (obj_get section ''accentColor'')] else []))"

text \<open>The five standard attributes, each appended when its field is truthy.\<close>

definition standard_traits :: "dict \<Rightarrow> json list" where
  "standard_traits crd =
     (if truthy (dict_get crd ''type'')
      then [trait ''Type'' (dict_get crd ''type'')] else []) @
     (if truthy (dict_get crd ''rarity'')
      then [trait ''Rarity'' (dict_get crd ''rarity'')] else []) @
     (if truthy (dict_get crd ''level'')
      then [trait ''Level'' (JStr (py_str (dict_get crd ''level'')))] else []) @
     (if truthy (dict_get crd ''subtitle'')
      then [trait ''Move'' (dict_get crd ''subtitle'')] else []) @
     (if truthy (dict_get crd ''artist'')
      then [trait ''Artist'' (dict_get crd ''artist'')] else [])"

text \<open>The attributes of a theme that is a non-empty dictionary.\<close>

definition theme_traits :: "json \<Rightarrow> json list" where
  "theme_traits theme =
     (if truthy (obj_get theme ''background'')
      then [trait ''Card Background'' (obj_get theme ''background'')] else []) @
     concat (map (section_traits theme) section_labels)"

text \<open>
  \<^verbatim>\<open>build_metadata(card, idx)\<close> for a card \<open>crd\<close> that is a dictionary. The attribute list and the
  properties dictionary, which the source fills in place, are built first and put into
  the document; an empty properties dictionary is deleted from it at the end.
\<close>

definition build_metadata :: "dict \<Rightarrow> nat \<Rightarrow> dict" where
  "build_metadata crd idx =
     (let name = dict_get_default crd ''name'' (JStr (''Card_'' @ str_nat idx));
          description = (if truthy (dict_get crd ''flavorText'')
                         then dict_get crd ''flavorText'' else JStr ''A Whirlpool card'');
          image = dict_get_default crd ''image'' (JStr []);
          theme = dict_get crd ''theme'';
          attrs = standard_traits crd @
                  concat (map (stat_traits crd) stat_keys) @
                  (if truthy theme \<and> is_dict theme then theme_traits theme else []);
          props = (if truthy theme \<and> is_dict theme then [(''theme'', theme)] else []);
          meta = [(''name'', name),
                  (''description'', description),
                  (''image'', image),
                  (''external_url'', JStr ''https://howlonghasitben.github.io/cog-works/''),
                  (''attributes'', JArr attrs),
                  (''properties'', JObj props)]
      in if props = [] then AList.delete ''properties'' meta else meta)"

section \<open>The serializer\<close>

text \<open>
  \<^verbatim>\<open>json.dumps\<close> writes a string between double quotes, with escapes for the quote, the
  backslash and the control characters; with \<^verbatim>\<open>ensure_ascii\<close> it also escapes every
  character outside the range from the space to the tilde.
\<close>

definition json_escape_char :: "bool \<Rightarrow> char \<Rightarrow> string" where
  "json_escape_char ensure_ascii c =
     (if c = CHR 0x22 then [CHR 0x5C, CHR 0x22]
      else if c = CHR 0x5C then [CHR 0x5C, CHR 0x5C]
      else if c = CHR 0x0A then [CHR 0x5C, CHR ''n'']
      else if c = CHR 0x0D then [CHR 0x5C, CHR ''r'']
      else if c = CHR 0x09 then [CHR 0x5C, CHR ''t'']
      else if c = CHR 0x08 then [CHR 0x5C, CHR ''b'']
      else if c = CHR 0x0C then [CHR 0x5C, CHR ''f'']
      else if (of_char c :: nat) < 32 \<or> (ensure_ascii \<and> 126 < (of_char c :: nat))
        then [CHR 0x5C, CHR ''u'', CHR ''0'', CHR ''0''] @ hex2 c
      else [c])"

definition json_string :: "bool \<Rightarrow> string \<Rightarrow> string" where
  "json_string ensure_ascii s =
     [CHR 0x22] @ concat (map (json_escape_char ensure_ascii) s) @ [CHR 0x22]"

definition json_float :: "string \<Rightarrow> string" where
  "json_float r =
     (if r = ''nan'' then ''NaN''
      else if r = ''inf'' then ''Infinity''
      else if r = ''-inf'' then ''-Infinity''
      else r)"

text \<open>\<^verbatim>\<open>json.dumps(v, separators=(",", ":"), ensure_ascii=False)\<close>.\<close>

fun dumps_compact :: "json \<Rightarrow> string" where
  "dumps_compact JNull = ''null''"
| "dumps_compact (JBool b) = (if b then ''true'' else ''false'')"
| "dumps_compact (JInt i) = str_int i"
| "dumps_compact (JFloat r) = json_float r"
| "dumps_compact (JStr s) = json_string False s"
| "dumps_compact (JArr xs) = ''['' @ join '','' (map dumps_compact xs) @ '']''"
| "dumps_compact (JObj kvs) =
     ''{'' @ join '','' (map (\<lambda>kv. json_string False (fst kv) @ '':'' @ dumps_compact (snd kv)) kvs)
     @ ''}''"

definition serialize :: "json \<Rightarrow> string" where
  "serialize meta = dumps_compact meta"

text \<open>\<^verbatim>\<open>json.dump(v, f, indent=2)\<close>, at nesting depth \<open>level\<close>; \<^verbatim>\<open>ensure_ascii\<close> has its
  default, true.\<close>

definition newline_indent :: "nat \<Rightarrow> string" where
  "newline_indent level = CHR 0x0A # replicate (2 * level) CHR '' ''"

fun dumps_indent :: "nat \<Rightarrow> json \<Rightarrow> string" where
  "dumps_indent level JNull = ''null''"
| "dumps_indent level (JBool b) = (if b then ''true'' else ''false'')"
| "dumps_indent level (JInt i) = str_int i"
| "dumps_indent level (JFloat r) = json_float r"
| "dumps_indent level (JStr s) = json_string True s"
| "dumps_indent level (JArr xs) =
     (if xs = [] then ''[]''
      else ''['' @ newline_indent (level + 1) @
           join ('','' @ newline_indent (level + 1)) (map (dumps_indent (level + 1)) xs) @
           newline_indent level @ '']'')"
| "dumps_indent level (JObj kvs) =
     (if kvs = [] then ''{}''
      else ''{'' @ newline_indent (level + 1) @
           join ('','' @ newline_indent (level + 1))
             (map (\<lambda>kv. json_string True (fst kv) @ '': '' @ dumps_indent (level + 1) (snd kv)) kvs) @
           newline_indent level @ ''}'')"

section \<open>The output directory\<close>

text \<open>
  The output directory is a list of named entries, in the order \<^verbatim>\<open>os.listdir\<close> returns
  them. An entry is a regular file with its text, or something that is not one (a
  sub-directory), on which \<^verbatim>\<open>open\<close> and \<^verbatim>\<open>os.remove\<close> raise. \<open>None\<close> for the directory
  itself means that it does not exist yet. Failures that depend on nothing the script can
  see (permissions, a full disk, an encoding the locale lacks) are not modelled. A file
  holds the text that was written to it. Python's text mode turns a carriage return into
  a line feed when it reads; the model leaves that out, because the text the script
  compares a file with has neither character in it (\<^verbatim>\<open>json.dumps\<close> escapes both), so the
  comparison comes out the same.
\<close>

datatype entry = File string | Folder

type_synonym dir = "(string \<times> entry) list"

datatype error =
    LoadError
  | TypeError
  | AttributeError
  | IsADirectoryError
  | FileNotFoundError

text \<open>\<^verbatim>\<open>os.makedirs(OUT_DIR, exist_ok=True)\<close>.\<close>

definition os_makedirs :: "dir option \<Rightarrow> dir" where
  "os_makedirs fs = (case fs of None \<Rightarrow> [] | Some d \<Rightarrow> d)"

definition os_listdir :: "dir \<Rightarrow> string list" where
  "os_listdir d = map fst d"

definition os_path_exists :: "string \<Rightarrow> dir \<Rightarrow> bool" where
  "os_path_exists fname d = (map_of d fname \<noteq> None)"

text \<open>\<^verbatim>\<open>open(path, "r")\<close> and \<^verbatim>\<open>f.read()\<close>.\<close>

definition read_file :: "string \<Rightarrow> dir \<Rightarrow> error + string" where
  "read_file fname d =
     (case map_of d fname of
        None \<Rightarrow> Inl FileNotFoundError
      | Some Folder \<Rightarrow> Inl IsADirectoryError
      | Some (File content) \<Rightarrow> Inr content)"

text \<open>\<^verbatim>\<open>open(path, "w")\<close> and \<^verbatim>\<open>f.write(content)\<close>.\<close>

definition write_file :: "string \<Rightarrow> string \<Rightarrow> dir \<Rightarrow> error + dir" where
  "write_file fname content d =
     (case map_of d fname of
        Some Folder \<Rightarrow> Inl IsADirectoryError
      | _ \<Rightarrow> Inr (AList.update fname (File content) d))"

text \<open>\<^verbatim>\<open>os.remove(path)\<close>.\<close>

definition os_remove :: "string \<Rightarrow> dir \<Rightarrow> error + dir" where
  "os_remove fname d =
     (case map_of d fname of
        None \<Rightarrow> Inl FileNotFoundError
      | Some Folder \<Rightarrow> Inl IsADirectoryError
      | Some (File content) \<Rightarrow> Inr (AList.delete fname d))"

section \<open>The script\<close>

text \<open>
  The module's global variables, and the entries of the output directory. A run that an
  exception aborts is \<open>Inl (e, out)\<close>, with the output directory as the abort leaves it.
\<close>

record state =
  files :: dir
  index_map :: dict
  written :: nat
  skipped :: nat
  total :: nat
  stale :: nat

type_synonym outcome = "(error \<times> dir option) + state"

text \<open>
  One turn of the loop over \<^verbatim>\<open>enumerate(cards)\<close>. \<^verbatim>\<open>card.get\<close> raises on a card that is not a
  dictionary, and \<^verbatim>\<open>name.lower()\<close> on a name that is not a string.
\<close>

definition sync_card :: "bool \<Rightarrow> nat \<Rightarrow> json \<Rightarrow> state \<Rightarrow> outcome" where
  "sync_card force i c st =
     (case c of
        JObj crd \<Rightarrow>
          (case dict_get_default crd ''name'' (JStr (''Card_'' @ str_nat i)) of
             JStr name \<Rightarrow>
               (let slug = py_strip CHR ''-'' (re_sub_non_alnum ''-'' (py_lower name));
                    st1 = st\<lparr>index_map :=
                            AList.update name (JObj [(''index'', JInt (int i)), (''slug'', JStr slug)])
                              (index_map st)\<rparr>;
                    meta = build_metadata crd i;
                    new_content = serialize (JObj meta);
                    out_path = str_nat i @ ''.json'';
                    unchanged =
                      (if \<not> force \<and> os_path_exists out_path (files st1)
                       then (case read_file out_path (files st1) of
                               Inl e \<Rightarrow> Inl e
                             | Inr existing \<Rightarrow> Inr (existing = new_content))
                       else Inr False)
                in case unchanged of
                     Inl e \<Rightarrow> Inl (e, Some (files st1))
                   | Inr True \<Rightarrow> Inr (st1\<lparr>skipped := skipped st1 + 1\<rparr>)
                   | Inr False \<Rightarrow>
                       (case write_file out_path new_content (files st1) of
                          Inl e \<Rightarrow> Inl (e, Some (files st1))
                        | Inr d \<Rightarrow> Inr (st1\<lparr>files := d, written := written st1 + 1\<rparr>)))
           | _ \<Rightarrow> Inl (AttributeError, Some (files st)))
      | _ \<Rightarrow> Inl (AttributeError, Some (files st)))"

fun sync_loop :: "bool \<Rightarrow> nat \<Rightarrow> json list \<Rightarrow> state \<Rightarrow> outcome" where
  "sync_loop force i [] st = Inr st"
| "sync_loop force i (c # cs) st =
     (case sync_card force i c st of
        Inl e \<Rightarrow> Inl e
      | Inr st' \<Rightarrow> sync_loop force (Suc i) cs st')"

text \<open>
  The loop over \<^verbatim>\<open>os.listdir(OUT_DIR)\<close>, which is read once, before the first removal.
  Only \<^verbatim>\<open>ValueError\<close> is caught: a failing \<^verbatim>\<open>os.remove\<close> aborts the run.
\<close>

fun reconcile :: "string list \<Rightarrow> state \<Rightarrow> outcome" where
  "reconcile [] st = Inr st"
| "reconcile (fname # rest) st =
     (if fname = ''index.json'' then reconcile rest st
      else if endswith fname ''.json'' then
        (case py_int (py_replace ''.json'' [] fname) of
           None \<Rightarrow> reconcile rest st
         | Some idx \<Rightarrow>
             if idx \<ge> int (total st) then
               (case os_remove fname (files st) of
                  Inl e \<Rightarrow> Inl (e, Some (files st))
                | Inr d \<Rightarrow> reconcile rest (st\<lparr>files := d, stale := stale st + 1\<rparr>))
             else reconcile rest st)
      else reconcile rest st)"

text \<open>\<^verbatim>\<open>len(cards)\<close> and the elements a \<^verbatim>\<open>for\<close> loop over \<^verbatim>\<open>cards\<close> visits, for whatever value the
  input document holds: a dictionary is iterated by its keys, a string by its characters.\<close>

fun py_len :: "json \<Rightarrow> nat option" where
  "py_len (JArr xs) = Some (length xs)"
| "py_len (JObj kvs) = Some (length kvs)"
| "py_len (JStr s) = Some (length s)"
| "py_len _ = None"

fun py_iter :: "json \<Rightarrow> json list" where
  "py_iter (JArr xs) = xs"
| "py_iter (JObj kvs) = map (\<lambda>kv. JStr (fst kv)) kvs"
| "py_iter (JStr s) = map (\<lambda>ch. JStr [ch]) s"
| "py_iter _ = []"

text \<open>
  The whole script: \<open>force\<close> is the \<^verbatim>\<open>--force\<close> flag, \<open>inp\<close> what \<^verbatim>\<open>json.load(open(CARD_DATA))\<close>
  returns (\<open>None\<close> when it raises, the file being unreadable or not JSON), \<open>fs\<close> the output
  directory before the run.
\<close>

definition run :: "bool \<Rightarrow> json option \<Rightarrow> dir option \<Rightarrow> outcome" where
  "run force inp fs =
     (let d0 = os_makedirs fs
      in case inp of
           None \<Rightarrow> Inl (LoadError, Some d0)
         | Some cards \<Rightarrow>
             (case py_len cards of
                None \<Rightarrow> Inl (TypeError, Some d0)
              | Some n \<Rightarrow>
                  (case sync_loop force 0 (py_iter cards)
                          \<lparr>files = d0, index_map = [], written = 0, skipped = 0,
                           total = n, stale = 0\<rparr> of
                     Inl e \<Rightarrow> Inl e
                   | Inr st1 \<Rightarrow>
                       (case reconcile (os_listdir (files st1)) st1 of
                          Inl e \<Rightarrow> Inl e
                        | Inr st2 \<Rightarrow>
                            (case write_file ''index.json''
                                    (dumps_indent 0 (JObj (index_map st2))) (files st2) of
                               Inl e \<Rightarrow> Inl (e, Some (files st2))
                             | Inr d \<Rightarrow> Inr (st2\<lparr>files := d\<rparr>))))))"

section \<open>Notions for the statements\<close>

text \<open>The path of the document of index \<open>i\<close>, \<^verbatim>\<open>f"{i}.json"\<close>.\<close>

abbreviation doc_name :: "nat \<Rightarrow> string" where
  "doc_name i \<equiv> str_nat i @ ''.json''"

text \<open>The slug the loop derives from a name, and the entry it stores under the name.\<close>

abbreviation slug_of :: "string \<Rightarrow> string" where
  "slug_of name \<equiv> py_strip CHR ''-'' (re_sub_non_alnum ''-'' (py_lower name))"

abbreviation index_entry :: "nat \<Rightarrow> string \<Rightarrow> json" where
  "index_entry i name \<equiv> JObj [(''index'', JInt (int i)), (''slug'', JStr (slug_of name))]"

text \<open>
  The name the loop finds for the card at position \<open>i\<close>, when the card is a dictionary
  and its name, given or made up, is a string; and the text of its document.
\<close>

fun card_name :: "nat \<Rightarrow> json \<Rightarrow> string option" where
  "card_name i (JObj crd) =
     (case dict_get_default crd ''name'' (JStr (''Card_'' @ str_nat i)) of
        JStr name \<Rightarrow> Some name
      | _ \<Rightarrow> None)"
| "card_name i _ = None"

fun card_doc :: "nat \<Rightarrow> json \<Rightarrow> string" where
  "card_doc i (JObj crd) = serialize (JObj (build_metadata crd i))"
| "card_doc i _ = []"

text \<open>The index map after the cards \<open>cs\<close>, which stand at the positions from \<open>k\<close> on.\<close>

fun index_entries :: "nat \<Rightarrow> json list \<Rightarrow> dict \<Rightarrow> dict" where
  "index_entries k [] m = m"
| "index_entries k (c # cs) m =
     index_entries (Suc k) cs
       (case card_name k c of
          None \<Rightarrow> m
        | Some name \<Rightarrow> AList.update name (index_entry k name) m)"

text \<open>
  The test the reconciler makes on a file name before it removes the file: the name is
  not that of the index file, it ends in \<^verbatim>\<open>.json\<close>, and with every \<^verbatim>\<open>.json\<close> taken out of
  it \<^verbatim>\<open>int\<close> reads it as a number that is at least the number of cards.
\<close>

definition stale_name :: "nat \<Rightarrow> string \<Rightarrow> bool" where
  "stale_name n fname =
     (fname \<noteq> ''index.json'' \<and> endswith fname ''.json'' \<and>
      (case py_int (py_replace ''.json'' [] fname) of
         None \<Rightarrow> False
       | Some idx \<Rightarrow> idx \<ge> int n))"

text \<open>The attribute list of a document, and the traits in it that have a given type.\<close>

definition attributes :: "dict \<Rightarrow> json list" where
  "attributes meta = (case map_of meta ''attributes'' of Some (JArr xs) \<Rightarrow> xs | _ \<Rightarrow> [])"

definition traits_of_type :: "string \<Rightarrow> json list \<Rightarrow> json list" where
  "traits_of_type t attrs = filter (\<lambda>a. obj_get a ''trait_type'' = JStr t) attrs"

text \<open>
  The slug in the words of the specification: the name in lower case, cut into its
  maximal runs of characters from \<^verbatim>\<open>[a-z0-9]\<close>, and the runs joined by single hyphens. Each
  run of other characters between two of them has become one hyphen, and those before
  the first and after the last are gone.
\<close>

function alnum_runs :: "string \<Rightarrow> string list" where
  "alnum_runs s =
     (case dropWhile (\<lambda>x. \<not> is_alnum x) s of
        [] \<Rightarrow> []
      | c # cs \<Rightarrow> (c # takeWhile is_alnum cs) # alnum_runs (dropWhile is_alnum cs))"
  by pat_completeness auto
termination
proof (relation "measure length")
  fix s :: string and c cs
  assume "dropWhile (\<lambda>x. \<not> is_alnum x) s = c # cs"
  then have "length (c # cs) \<le> length s"
    using length_dropWhile_le [of "\<lambda>x. \<not> is_alnum x" s] by simp
  moreover have "length (dropWhile is_alnum cs) \<le> length cs"
    by (rule length_dropWhile_le)
  ultimately show "(dropWhile is_alnum cs, s) \<in> measure length"
    by simp
qed simp

declare alnum_runs.simps [simp del]

definition slug_spec :: "string \<Rightarrow> string" where
  "slug_spec name = join ''-'' (alnum_runs (py_lower name))"

text \<open>An output directory as the script expects to find it: no two entries share a name,
  and every entry is a regular file.\<close>

definition regular_dir :: "dir \<Rightarrow> bool" where
  "regular_dir d \<longleftrightarrow> distinct (map fst d) \<and> Folder \<notin> set (map snd d)"

text \<open>\<^verbatim>\<open>sub in s\<close>: the string \<open>sub\<close> occurs somewhere in \<open>s\<close>.\<close>

fun has_substring :: "string \<Rightarrow> string \<Rightarrow> bool" where
  "has_substring sub [] = (sub = [])"
| "has_substring sub (c # cs) = (take (length sub) (c # cs) = sub \<or> has_substring sub cs)"

section \<open>Document names\<close>

lemma is_digit_digit_char: "n < 10 \<Longrightarrow> is_digit (digit_char n)"
  by (simp add: is_digit_def digit_char_def)

lemma digit_val_digit_char: "n < 10 \<Longrightarrow> digit_val (digit_char n) = n"
  by (simp add: digit_val_def digit_char_def)

lemma str_nat_digits: "c \<in> set (str_nat n) \<Longrightarrow> is_digit c"
proof (induction n arbitrary: c rule: str_nat.induct)
  case (1 n)
  show ?case
  proof (cases "n < 10")
    case True
    with "1.prems" show ?thesis
      by (simp add: str_nat.simps [of n] is_digit_digit_char)
  next
    case False
    with "1.prems" "1.IH" show ?thesis
      by (auto simp: str_nat.simps [of n] is_digit_digit_char)
  qed
qed

lemma str_nat_not_Nil: "str_nat n \<noteq> []"
  by (subst str_nat.simps) simp

lemma digits_val_all_digits:
  "\<forall>c \<in> set ds. is_digit c \<Longrightarrow>
   digits_val acc ds = Some (foldl (\<lambda>a c. 10 * a + digit_val c) acc ds)"
  by (induction ds arbitrary: acc) simp_all

lemma foldl_str_nat: "foldl (\<lambda>a c. 10 * a + digit_val c) 0 (str_nat n) = n"
proof (induction n rule: str_nat.induct)
  case (1 n)
  show ?case
  proof (cases "n < 10")
    case True
    then show ?thesis
      by (simp add: str_nat.simps [of n] digit_val_digit_char)
  next
    case False
    with "1.IH" show ?thesis
      by (simp add: str_nat.simps [of n] digit_val_digit_char)
  qed
qed

lemma unsigned_val_str_nat: "unsigned_val (str_nat n) = Some n"
proof (cases "str_nat n")
  case Nil
  then show ?thesis by (simp add: str_nat_not_Nil)
next
  case (Cons c cs)
  have dig: "\<forall>x \<in> set (c # cs). is_digit x"
    using str_nat_digits [of _ n] Cons by auto
  have "foldl (\<lambda>a c. 10 * a + digit_val c) 0 (c # cs) = n"
    using foldl_str_nat [of n] Cons by simp
  then have "foldl (\<lambda>a c. 10 * a + digit_val c) (digit_val c) cs = n"
    by simp
  with dig Cons show ?thesis
    by (simp add: unsigned_val_def digits_val_all_digits)
qed

lemma digit_not_space: "is_digit c \<Longrightarrow> \<not> is_int_space c"
  by (auto simp: is_digit_def is_int_space_def Let_def)

lemma digit_not_sign: "is_digit c \<Longrightarrow> c \<noteq> CHR ''-'' \<and> c \<noteq> CHR ''+'' \<and> c \<noteq> CHR ''.'' \<and> c \<noteq> CHR ''i''"
  by (auto simp: is_digit_def)

lemma dropWhile_hd_id: "xs \<noteq> [] \<Longrightarrow> \<not> P (hd xs) \<Longrightarrow> dropWhile P xs = xs"
  by (cases xs) simp_all

lemma py_int_str_nat: "py_int (str_nat n) = Some (int n)"
proof -
  obtain c cs where cs: "str_nat n = c # cs"
    using str_nat_not_Nil [of n] by (cases "str_nat n") auto
  have c: "is_digit c"
    using str_nat_digits [of c n] cs by simp
  have l: "is_digit (last (str_nat n))"
    using str_nat_digits [of "last (str_nat n)" n] str_nat_not_Nil [of n] by simp
  have 1: "dropWhile is_int_space (str_nat n) = str_nat n"
    using c cs by (simp add: digit_not_space)
  have 2: "dropWhile is_int_space (rev (str_nat n)) = rev (str_nat n)"
    using l str_nat_not_Nil [of n]
    by (intro dropWhile_hd_id) (simp_all add: hd_rev digit_not_space)
  have "py_int (str_nat n) =
          (case str_nat n of [] \<Rightarrow> None
           | c # cs \<Rightarrow>
               if c = CHR ''-'' then map_option (\<lambda>n. - int n) (unsigned_val cs)
               else if c = CHR ''+'' then map_option int (unsigned_val cs)
               else map_option int (unsigned_val (str_nat n)))"
    unfolding py_int_def 1 2 rev_rev_ident Let_def ..
  also have "\<dots> = map_option int (unsigned_val (str_nat n))"
    using cs digit_not_sign [OF c] by simp
  finally show ?thesis
    by (simp add: unsigned_val_str_nat)
qed

lemma str_nat_inject: "str_nat i = str_nat j \<longleftrightarrow> i = j"
proof
  assume "str_nat i = str_nat j"
  then have "py_int (str_nat i) = py_int (str_nat j)" by simp
  then show "i = j" by (simp add: py_int_str_nat)
qed simp

lemma replace_from_digits:
  "\<forall>c \<in> set ds. is_digit c \<Longrightarrow> replace_from ''.json'' [] (ds @ ''.json'') = ds"
proof (induction ds)
  case Nil
  show ?case by simp
next
  case (Cons c ds)
  then have "c \<noteq> CHR ''.''" using digit_not_sign [of c] by simp
  with Cons show ?case by simp
qed

lemma py_replace_doc_name: "py_replace ''.json'' [] (str_nat i @ ''.json'') = str_nat i"
  using replace_from_digits [of "str_nat i"] str_nat_digits [of _ i]
  by (auto simp: py_replace_def)

lemma endswith_append: "endswith (s @ suffix) suffix"
  by (simp add: endswith_def)

lemma doc_name_not_index: "str_nat i @ ''.json'' \<noteq> ''index.json''"
proof -
  obtain c cs where cs: "str_nat i = c # cs"
    using str_nat_not_Nil [of i] by (cases "str_nat i") auto
  then have "is_digit c" using str_nat_digits [of c i] by simp
  then have "c \<noteq> CHR ''i''" using digit_not_sign [of c] by simp
  with cs show ?thesis by simp
qed

section \<open>One card\<close>

lemma card_name_SomeD:
  "card_name i c = Some name \<Longrightarrow>
   \<exists>crd. c = JObj crd \<and> dict_get_default crd ''name'' (JStr (''Card_'' @ str_nat i)) = JStr name"
  by (cases c) (auto split: json.splits)

lemma sync_card_None:
  "card_name i c = None \<Longrightarrow> sync_card force i c st = Inl (AttributeError, Some (files st))"
  by (cases c) (auto simp: sync_card_def split: json.splits)

lemma sync_card_Some:
  assumes "card_name i c = Some name"
  shows "sync_card force i c st =
     (if \<not> force \<and> map_of (files st) (doc_name i) = Some (File (card_doc i c))
      then Inr (st\<lparr>index_map := AList.update name (index_entry i name) (index_map st),
                   skipped := skipped st + 1\<rparr>)
      else if map_of (files st) (doc_name i) = Some Folder
      then Inl (IsADirectoryError, Some (files st))
      else Inr (st\<lparr>index_map := AList.update name (index_entry i name) (index_map st),
                   files := AList.update (doc_name i) (File (card_doc i c)) (files st),
                   written := written st + 1\<rparr>))"
proof -
  obtain crd where c: "c = JObj crd"
    and n: "dict_get_default crd ''name'' (JStr (''Card_'' @ str_nat i)) = JStr name"
    using card_name_SomeD [OF assms] by blast
  show ?thesis
    using n
    by (simp add: c sync_card_def Let_def os_path_exists_def read_file_def write_file_def
             split: option.splits entry.splits)
qed

lemma sync_card_Inr:
  assumes "sync_card force i c st = Inr st'"
  shows "\<exists>name. card_name i c = Some name \<and>
           index_map st' = AList.update name (index_entry i name) (index_map st)"
    and "map_of (files st') = (map_of (files st))(doc_name i \<mapsto> File (card_doc i c))"
    and "total st' = total st" and "stale st' = stale st"
    and "written st' + skipped st' = Suc (written st + skipped st)"
    and "force \<Longrightarrow> written st' = Suc (written st) \<and> skipped st' = skipped st"
proof -
  obtain name where name: "card_name i c = Some name"
    using assms sync_card_None [of i c force st] by (cases "card_name i c") auto
  note eq = assms [unfolded sync_card_Some [OF name]]
  show "\<exists>name. card_name i c = Some name \<and>
           index_map st' = AList.update name (index_entry i name) (index_map st)"
    using eq name by (auto split: if_splits)
  show "map_of (files st') = (map_of (files st))(doc_name i \<mapsto> File (card_doc i c))"
    using eq by (auto split: if_splits simp: update_conv' map_upd_triv)
  show "total st' = total st" "stale st' = stale st"
    using eq by (auto split: if_splits)
  show "written st' + skipped st' = Suc (written st + skipped st)"
    using eq by (auto split: if_splits)
  show "written st' = Suc (written st) \<and> skipped st' = skipped st" if force
    using eq that by (auto split: if_splits)
qed

section \<open>The loop over the cards\<close>

lemma sync_loop_Cons_Inr:
  assumes "sync_loop force k (c # cs) st = Inr st'"
  obtains st1 where "sync_card force k c st = Inr st1"
    and "sync_loop force (Suc k) cs st1 = Inr st'"
  using assms by (auto split: sum.splits)

lemma sync_loop_card_name:
  "sync_loop force k cs st = Inr st' \<Longrightarrow> j < length cs \<Longrightarrow> card_name (k + j) (cs ! j) \<noteq> None"
proof (induction cs arbitrary: k st j)
  case Nil
  then show ?case by simp
next
  case (Cons c cs)
  from Cons.prems(1) obtain st1 where 1: "sync_card force k c st = Inr st1"
    and 2: "sync_loop force (Suc k) cs st1 = Inr st'"
    by (rule sync_loop_Cons_Inr)
  show ?case
  proof (cases j)
    case 0
    with sync_card_Inr(1) [OF 1] show ?thesis by auto
  next
    case (Suc j')
    with Cons.IH [OF 2, of j'] Cons.prems(2) show ?thesis by simp
  qed
qed

lemma sync_loop_index_map:
  "sync_loop force k cs st = Inr st' \<Longrightarrow> index_map st' = index_entries k cs (index_map st)"
proof (induction cs arbitrary: k st)
  case Nil
  then show ?case by simp
next
  case (Cons c cs)
  from Cons.prems obtain st1 where 1: "sync_card force k c st = Inr st1"
    and 2: "sync_loop force (Suc k) cs st1 = Inr st'"
    by (rule sync_loop_Cons_Inr)
  from sync_card_Inr(1) [OF 1] Cons.IH [OF 2] show ?case by auto
qed

lemma sync_loop_counters:
  assumes "sync_loop force k cs st = Inr st'"
  shows "total st' = total st \<and> stale st' = stale st \<and>
         written st' + skipped st' = written st + skipped st + length cs \<and>
         (force \<longrightarrow> written st' = written st + length cs \<and> skipped st' = skipped st)"
  using assms
proof (induction cs arbitrary: k st)
  case Nil
  then show ?case by simp
next
  case (Cons c cs)
  from Cons.prems obtain st1 where 1: "sync_card force k c st = Inr st1"
    and 2: "sync_loop force (Suc k) cs st1 = Inr st'"
    by (rule sync_loop_Cons_Inr)
  from sync_card_Inr(3-6) [OF 1] Cons.IH [OF 2] show ?case by auto
qed

lemma doc_name_inject: "doc_name i = doc_name j \<longleftrightarrow> i = j"
  by (simp add: str_nat_inject)

lemma sync_loop_other:
  "sync_loop force k cs st = Inr st' \<Longrightarrow> \<forall>j<length cs. n \<noteq> doc_name (k + j) \<Longrightarrow>
   map_of (files st') n = map_of (files st) n"
proof (induction cs arbitrary: k st)
  case Nil
  then show ?case by simp
next
  case (Cons c cs)
  from Cons.prems(1) obtain st1 where 1: "sync_card force k c st = Inr st1"
    and 2: "sync_loop force (Suc k) cs st1 = Inr st'"
    by (rule sync_loop_Cons_Inr)
  have "n \<noteq> doc_name k"
    using Cons.prems(2) by fastforce
  moreover have "\<forall>j<length cs. n \<noteq> doc_name (Suc k + j)"
    using Cons.prems(2) by fastforce
  ultimately show ?case
    using Cons.IH [OF 2] sync_card_Inr(2) [OF 1] by simp
qed

lemma sync_loop_doc:
  "sync_loop force k cs st = Inr st' \<Longrightarrow> j < length cs \<Longrightarrow>
   map_of (files st') (doc_name (k + j)) = Some (File (card_doc (k + j) (cs ! j)))"
proof (induction cs arbitrary: k st j)
  case Nil
  then show ?case by simp
next
  case (Cons c cs)
  from Cons.prems(1) obtain st1 where 1: "sync_card force k c st = Inr st1"
    and 2: "sync_loop force (Suc k) cs st1 = Inr st'"
    by (rule sync_loop_Cons_Inr)
  show ?case
  proof (cases j)
    case 0
    have "\<forall>j<length cs. doc_name k \<noteq> doc_name (Suc k + j)"
      by (simp add: str_nat_inject)
    from sync_loop_other [OF 2 this] sync_card_Inr(2) [OF 1] 0 show ?thesis
      by simp
  next
    case (Suc j')
    with Cons.IH [OF 2, of j'] Cons.prems(2) show ?thesis by simp
  qed
qed

lemma sync_loop_skip:
  "\<forall>j<length cs. card_name (k + j) (cs ! j) \<noteq> None \<and>
      map_of (files st) (doc_name (k + j)) = Some (File (card_doc (k + j) (cs ! j))) \<Longrightarrow>
   sync_loop False k cs st =
     Inr (st\<lparr>index_map := index_entries k cs (index_map st),
             skipped := skipped st + length cs\<rparr>)"
proof (induction cs arbitrary: k st)
  case Nil
  show ?case by simp
next
  case (Cons c cs)
  from Cons.prems have "card_name k c \<noteq> None"
    and here: "map_of (files st) (doc_name k) = Some (File (card_doc k c))"
    by fastforce+
  then obtain name where name: "card_name k c = Some name" by auto
  let ?st1 = "st\<lparr>index_map := AList.update name (index_entry k name) (index_map st),
                   skipped := skipped st + 1\<rparr>"
  have 1: "sync_card False k c st = Inr ?st1"
    by (simp add: sync_card_Some [OF name] here)
  have "\<forall>j<length cs. card_name (Suc k + j) (cs ! j) \<noteq> None \<and>
          map_of (files ?st1) (doc_name (Suc k + j)) = Some (File (card_doc (Suc k + j) (cs ! j)))"
  proof (intro allI impI)
    fix j assume "j < length cs"
    then have "Suc j < length (c # cs)" by simp
    with Cons.prems show "card_name (Suc k + j) (cs ! j) \<noteq> None \<and>
          map_of (files ?st1) (doc_name (Suc k + j)) = Some (File (card_doc (Suc k + j) (cs ! j)))"
      by fastforce
  qed
  from Cons.IH [OF this] 1 name show ?case by simp
qed

section \<open>The reconciler\<close>

lemma stale_name_doc_name: "stale_name n (doc_name i) \<longleftrightarrow> n \<le> i"
  by (simp add: stale_name_def doc_name_not_index endswith_append py_replace_doc_name
        py_int_str_nat)

lemma stale_name_index: "\<not> stale_name n ''index.json''"
  by (simp add: stale_name_def)

lemma reconcile_Cons:
  "reconcile (fname # rest) st =
     (if stale_name (total st) fname
      then (case os_remove fname (files st) of
              Inl e \<Rightarrow> Inl (e, Some (files st))
            | Inr d \<Rightarrow> reconcile rest (st\<lparr>files := d, stale := stale st + 1\<rparr>))
      else reconcile rest st)"
  by (simp add: stale_name_def split: option.splits)

lemma os_remove_Inr: "os_remove fname d = Inr d' \<Longrightarrow> map_of d' = (map_of d)(fname := None)"
  by (auto simp: os_remove_def delete_conv' split: option.splits entry.splits)

lemma reconcile_Inr:
  "reconcile names st = Inr st' \<Longrightarrow>
   map_of (files st') n =
     (if n \<in> set names \<and> stale_name (total st) n then None else map_of (files st) n) \<and>
   index_map st' = index_map st \<and> written st' = written st \<and>
   skipped st' = skipped st \<and> total st' = total st"
proof (induction names arbitrary: st)
  case Nil
  then show ?case by simp
next
  case (Cons fname rest)
  show ?case
  proof (cases "stale_name (total st) fname")
    case False
    with Cons.prems have "reconcile rest st = Inr st'"
      by (simp add: reconcile_Cons del: reconcile.simps)
    from Cons.IH [OF this] False show ?thesis by auto
  next
    case True
    with Cons.prems obtain d where d: "os_remove fname (files st) = Inr d"
      and r: "reconcile rest (st\<lparr>files := d, stale := stale st + 1\<rparr>) = Inr st'"
      by (auto simp: reconcile_Cons simp del: reconcile.simps split: sum.splits)
    from Cons.IH [OF r] os_remove_Inr [OF d] True show ?thesis by auto
  qed
qed

lemma reconcile_nothing_stale:
  "\<forall>n \<in> set names. \<not> stale_name (total st) n \<Longrightarrow> reconcile names st = Inr st"
  by (induction names) (simp_all add: reconcile_Cons del: reconcile.simps(2))

lemma reconcile_succeeds:
  "distinct names \<Longrightarrow>
   \<forall>n \<in> set names. stale_name (total st) n \<longrightarrow> (\<exists>c. map_of (files st) n = Some (File c)) \<Longrightarrow>
   \<exists>st'. reconcile names st = Inr st'"
proof (induction names arbitrary: st)
  case Nil
  show ?case by simp
next
  case (Cons fname rest)
  show ?case
  proof (cases "stale_name (total st) fname")
    case False
    with Cons show ?thesis
      by (simp add: reconcile_Cons del: reconcile.simps(2))
  next
    case True
    with Cons.prems(2) obtain c where c: "map_of (files st) fname = Some (File c)"
      by auto
    let ?st1 = "st\<lparr>files := AList.delete fname (files st), stale := stale st + 1\<rparr>"
    have "\<forall>n \<in> set rest. stale_name (total ?st1) n \<longrightarrow> (\<exists>c. map_of (files ?st1) n = Some (File c))"
      using Cons.prems by (auto simp: delete_conv')
    with Cons.IH [of ?st1] Cons.prems(1) obtain st' where "reconcile rest ?st1 = Inr st'"
      by auto
    with True c show ?thesis
      by (simp add: reconcile_Cons os_remove_def del: reconcile.simps(2))
  qed
qed

section \<open>A whole run\<close>

lemma py_len_py_iter: "py_len doc = Some n \<Longrightarrow> n = length (py_iter doc)"
  by (cases doc) auto

lemma write_file_Inr:
  "write_file fname content d = Inr d' \<Longrightarrow> d' = AList.update fname (File content) d"
  by (auto simp: write_file_def split: option.splits entry.splits)

lemma run_Inr:
  assumes "run force inp fs = Inr st"
  obtains doc st1 st2 where "inp = Some doc"
    and "py_len doc = Some (length (py_iter doc))"
    and "sync_loop force 0 (py_iter doc)
           \<lparr>files = os_makedirs fs, index_map = [], written = 0, skipped = 0,
            total = length (py_iter doc), stale = 0\<rparr> = Inr st1"
    and "reconcile (os_listdir (files st1)) st1 = Inr st2"
    and "write_file ''index.json'' (dumps_indent 0 (JObj (index_map st2))) (files st2)
           = Inr (files st)"
    and "st = st2\<lparr>files := files st\<rparr>"
proof -
  from assms obtain doc where doc: "inp = Some doc"
    by (cases inp) (auto simp: run_def)
  from assms doc obtain n where n: "py_len doc = Some n"
    by (cases "py_len doc") (auto simp: run_def)
  then have len: "n = length (py_iter doc)" by (rule py_len_py_iter)
  from assms doc n len that show thesis
    by (auto simp: run_def split: sum.splits)
qed

section \<open>Names with one suffix\<close>

lemma no_occurrence_at_head:
  assumes "old \<noteq> []" and "hd old \<notin> set (tl old)" and "\<not> has_substring old (c # cs)"
  shows "take (length old) ((c # cs) @ old) \<noteq> old"
proof
  assume eq: "take (length old) ((c # cs) @ old) = old"
  let ?m = "length (c # cs)"
  show False
  proof (cases "length old \<le> ?m")
    case True
    then have "length old - ?m = 0"
      by simp
    then have "take (length old) ((c # cs) @ old) = take (length old) (c # cs)"
      unfolding take_append by simp
    with eq have "take (length old) (c # cs) = old"
      by (simp only:)
    with assms(3) show False
      unfolding has_substring.simps by blast
  next
    case False
    then have m: "?m < length old" by simp
    have "old ! ?m = (take (length old) ((c # cs) @ old)) ! ?m"
      by (simp only: eq)
    also have "\<dots> = ((c # cs) @ old) ! ?m"
      using m by (intro nth_take)
    also have "\<dots> = old ! 0"
      using nth_append_length_plus [of "c # cs" old 0] by simp
    finally have same: "old ! ?m = old ! 0" .
    obtain x xs where old: "old = x # xs"
      using assms(1) by (cases old) auto
    from m old have "xs ! (length cs) \<in> set xs"
      by (intro nth_mem) simp
    with same old have "x \<in> set xs" by simp
    with assms(2) old show False by simp
  qed
qed

lemma replace_from_one_suffix:
  assumes "old \<noteq> []" and "hd old \<notin> set (tl old)"
  shows "\<not> has_substring old s \<Longrightarrow> replace_from old new (s @ old) = s @ new"
proof (induction s)
  case Nil
  obtain x xs where old: "old = x # xs"
    using assms(1) by (cases old) auto
  show ?case by (simp add: old)
next
  case (Cons c cs)
  from Cons.prems have rest: "\<not> has_substring old cs"
    by simp
  from no_occurrence_at_head [OF assms Cons.prems]
  have "take (length old) (c # cs @ old) \<noteq> old" by simp
  with Cons.IH [OF rest] show ?case
    by simp
qed

lemma py_replace_stem:
  "\<not> has_substring ''.json'' stem \<Longrightarrow> py_replace ''.json'' [] (stem @ ''.json'') = stem"
  using replace_from_one_suffix [of "''.json''" stem "[]"] by (simp add: py_replace_def)

lemma stale_name_stem:
  assumes "\<not> has_substring ''.json'' stem" and "stem @ ''.json'' \<noteq> ''index.json''"
  shows "stale_name n (stem @ ''.json'') \<longleftrightarrow> (\<exists>idx. py_int stem = Some idx \<and> int n \<le> idx)"
  using assms(2)
  by (auto simp: stale_name_def endswith_append py_replace_stem [OF assms(1)]
           split: option.splits)

lemma not_stale_without_suffix:
  "n = ''index.json'' \<or> \<not> endswith n ''.json'' \<Longrightarrow> \<not> stale_name k n"
  by (auto simp: stale_name_def)

lemma listed_iff: "n \<in> set (os_listdir d) \<longleftrightarrow> map_of d n \<noteq> None"
  by (simp add: os_listdir_def map_of_eq_None_iff)

lemma run_Inr_files:
  assumes "run force (Some doc) fs = Inr st"
  obtains st1 where
    "sync_loop force 0 (py_iter doc)
       \<lparr>files = os_makedirs fs, index_map = [], written = 0, skipped = 0,
        total = length (py_iter doc), stale = 0\<rparr> = Inr st1"
    and "\<forall>n. map_of (files st) n =
           (if n = ''index.json'' then Some (File (dumps_indent 0 (JObj (index_map st))))
            else if stale_name (length (py_iter doc)) n then None
            else map_of (files st1) n)"
    and "index_map st = index_map st1" and "written st = written st1"
    and "skipped st = skipped st1" and "total st = total st1"
proof -
  from assms obtain st1 st2 where
    1: "sync_loop force 0 (py_iter doc)
         \<lparr>files = os_makedirs fs, index_map = [], written = 0, skipped = 0,
          total = length (py_iter doc), stale = 0\<rparr> = Inr st1"
    and 2: "reconcile (os_listdir (files st1)) st1 = Inr st2"
    and 3: "write_file ''index.json'' (dumps_indent 0 (JObj (index_map st2))) (files st2)
             = Inr (files st)"
    and 4: "st = st2\<lparr>files := files st\<rparr>"
    by (auto elim!: run_Inr)
  have tot: "total st1 = length (py_iter doc)"
    using sync_loop_counters [OF 1] by simp
  have st2: "index_map st2 = index_map st1" "written st2 = written st1"
    "skipped st2 = skipped st1" "total st2 = total st1"
    using reconcile_Inr [OF 2] by simp_all
  have st: "index_map st = index_map st2" "written st = written st2"
    "skipped st = skipped st2" "total st = total st2"
    by (subst 4, simp)+
  have f2: "map_of (files st2) n =
      (if stale_name (length (py_iter doc)) n then None else map_of (files st1) n)" for n
    using reconcile_Inr [OF 2, of n] tot by (auto simp: listed_iff)
  have f: "map_of (files st) n =
           (if n = ''index.json'' then Some (File (dumps_indent 0 (JObj (index_map st))))
            else if stale_name (length (py_iter doc)) n then None
            else map_of (files st1) n)" for n
    using write_file_Inr [OF 3] f2 [of n] st(1) by (simp add: update_conv')
  from f have "\<forall>n. map_of (files st) n =
           (if n = ''index.json'' then Some (File (dumps_indent 0 (JObj (index_map st))))
            else if stale_name (length (py_iter doc)) n then None
            else map_of (files st1) n)" by blast
  with 1 st st2 that show thesis by simp
qed

lemma run_counters:
  assumes "run force (Some doc) fs = Inr st"
  shows "total st = length (py_iter doc)"
    and "written st + skipped st = length (py_iter doc)"
    and "force \<Longrightarrow> written st = length (py_iter doc) \<and> skipped st = 0"
    and "index_map st = index_entries 0 (py_iter doc) []"
proof -
  from assms obtain st1 where
    1: "sync_loop force 0 (py_iter doc)
         \<lparr>files = os_makedirs fs, index_map = [], written = 0, skipped = 0,
          total = length (py_iter doc), stale = 0\<rparr> = Inr st1"
    and eqs: "index_map st = index_map st1" "written st = written st1"
      "skipped st = skipped st1" "total st = total st1"
    by (rule run_Inr_files)
  from sync_loop_counters [OF 1] eqs
  show "total st = length (py_iter doc)"
    and "written st + skipped st = length (py_iter doc)"
    and "force \<Longrightarrow> written st = length (py_iter doc) \<and> skipped st = 0"
    by simp_all
  from sync_loop_index_map [OF 1] eqs
  show "index_map st = index_entries 0 (py_iter doc) []" by simp
qed

lemma run_card_name:
  assumes "run force (Some doc) fs = Inr st" and "j < length (py_iter doc)"
  shows "card_name j (py_iter doc ! j) \<noteq> None"
proof -
  from assms(1) obtain st1 where
    "sync_loop force 0 (py_iter doc)
         \<lparr>files = os_makedirs fs, index_map = [], written = 0, skipped = 0,
          total = length (py_iter doc), stale = 0\<rparr> = Inr st1"
    by (rule run_Inr_files) blast
  from sync_loop_card_name [OF this assms(2)] show ?thesis by simp
qed

lemma run_files_index:
  assumes "run force (Some doc) fs = Inr st"
  shows "map_of (files st) ''index.json'' = Some (File (dumps_indent 0 (JObj (index_map st))))"
  using assms by (rule run_Inr_files) simp

lemma run_files_stale:
  assumes "run force (Some doc) fs = Inr st" and "stale_name (length (py_iter doc)) n"
  shows "map_of (files st) n = None"
proof -
  from assms(2) have "n \<noteq> ''index.json''"
    using stale_name_index by auto
  with assms show ?thesis
    by (elim run_Inr_files) simp
qed

lemma run_files_doc:
  assumes "run force (Some doc) fs = Inr st" and "j < length (py_iter doc)"
  shows "map_of (files st) (doc_name j) = Some (File (card_doc j (py_iter doc ! j)))"
proof -
  from assms(1) obtain st1 where
    1: "sync_loop force 0 (py_iter doc)
         \<lparr>files = os_makedirs fs, index_map = [], written = 0, skipped = 0,
          total = length (py_iter doc), stale = 0\<rparr> = Inr st1"
    and f: "\<forall>n. map_of (files st) n =
           (if n = ''index.json'' then Some (File (dumps_indent 0 (JObj (index_map st))))
            else if stale_name (length (py_iter doc)) n then None
            else map_of (files st1) n)"
    and "index_map st = index_map st1" "written st = written st1"
      "skipped st = skipped st1" "total st = total st1"
    by (rule run_Inr_files)
  have "map_of (files st) (doc_name j) = map_of (files st1) (doc_name j)"
    using assms(2) by (simp add: f doc_name_not_index stale_name_doc_name)
  with sync_loop_doc [OF 1 assms(2)] show ?thesis by simp
qed

lemma run_files_other:
  assumes "run force (Some doc) fs = Inr st"
    and "n \<noteq> ''index.json''" and "\<forall>j<length (py_iter doc). n \<noteq> doc_name j"
  shows "map_of (files st) n =
           (if stale_name (length (py_iter doc)) n then None else map_of (os_makedirs fs) n)"
proof -
  from assms(1) obtain st1 where
    1: "sync_loop force 0 (py_iter doc)
         \<lparr>files = os_makedirs fs, index_map = [], written = 0, skipped = 0,
          total = length (py_iter doc), stale = 0\<rparr> = Inr st1"
    and f: "\<forall>n. map_of (files st) n =
           (if n = ''index.json'' then Some (File (dumps_indent 0 (JObj (index_map st))))
            else if stale_name (length (py_iter doc)) n then None
            else map_of (files st1) n)"
    and "index_map st = index_map st1" "written st = written st1"
      "skipped st = skipped st1" "total st = total st1"
    by (rule run_Inr_files)
  from assms(3) have "\<forall>j<length (py_iter doc). n \<noteq> doc_name (0 + j)" by simp
  from sync_loop_other [OF 1 this] assms(2) show ?thesis
    by (simp add: f)
qed

section \<open>The attribute list\<close>

lemma attributes_build_metadata:
  "attributes (build_metadata crd idx) =
     standard_traits crd @ concat (map (stat_traits crd) stat_keys) @
     (if truthy (dict_get crd ''theme'') \<and> is_dict (dict_get crd ''theme'')
      then theme_traits (dict_get crd ''theme'') else [])"
  by (simp add: attributes_def build_metadata_def Let_def)

lemma traits_of_type_append [simp]:
  "traits_of_type t (xs @ ys) = traits_of_type t xs @ traits_of_type t ys"
  by (simp add: traits_of_type_def)

lemma traits_of_type_Nil [simp]: "traits_of_type t [] = []"
  by (simp add: traits_of_type_def)

lemma traits_of_type_opt:
  "traits_of_type t (if c then [trait t' v] else []) = (if c \<and> t = t' then [trait t' v] else [])"
  by (auto simp: traits_of_type_def trait_def dict_get_def dict_get_default_def)

lemma traits_of_type_trait:
  "traits_of_type t [trait t' v] = (if t = t' then [trait t' v] else [])"
  by (auto simp: traits_of_type_def trait_def dict_get_def dict_get_default_def)

lemma traits_of_type_standard:
  "t \<notin> {''Type'', ''Rarity'', ''Level'', ''Move'', ''Artist''} \<Longrightarrow>
   traits_of_type t (standard_traits crd) = []"
  by (simp add: standard_traits_def traits_of_type_opt)

lemma traits_of_type_section:
  "t \<notin> {label @ '' Background'', label @ '' Color'', label @ '' Border'', label @ '' Accent''} \<Longrightarrow>
   traits_of_type t (section_traits theme (key, label)) = []"
  by (simp add: section_traits_def Let_def traits_of_type_opt)

lemma traits_of_type_theme:
  "t \<in> {''HP'', ''Mana Cost'', ''Crit'', ''HP Gradient'', ''Mana Cost Gradient'', ''Crit Gradient''} \<Longrightarrow>
   traits_of_type t (theme_traits theme) = []"
proof -
  have "traits_of_type t (theme_traits theme) = []"
    if "t = ''HP'' \<or> t = ''Mana Cost'' \<or> t = ''Crit'' \<or> t = ''HP Gradient'' \<or>
        t = ''Mana Cost Gradient'' \<or> t = ''Crit Gradient''"
    using that
    by (elim disjE)
       (simp_all add: theme_traits_def section_labels_def traits_of_type_section traits_of_type_opt)
  then show "t \<in> {''HP'', ''Mana Cost'', ''Crit'', ''HP Gradient'', ''Mana Cost Gradient'', ''Crit Gradient''} \<Longrightarrow>
   traits_of_type t (theme_traits theme) = []"
    by simp
qed

lemma truthy_obj_get: "truthy (obj_get s k) \<Longrightarrow> is_dict s \<and> truthy s"
  by (cases s) (auto simp: dict_get_def dict_get_default_def)

lemma stat_traits_eq:
  "stat_traits crd (k, d) =
     (if is_dict (dict_get crd k) \<and> truthy (obj_get (dict_get crd k) ''value'')
      then trait d (JStr (py_str (obj_get (dict_get crd k) ''value''))) #
           (if truthy (obj_get (dict_get crd k) ''color'')
            then [trait (d @ '' Gradient'') (obj_get (dict_get crd k) ''color'')] else [])
      else [])"
  using truthy_obj_get [of "dict_get crd k" "''value''"]
  by (auto simp: stat_traits_def Let_def)

lemma stat_traits_adjacent:
  assumes "(k, d) \<in> set stat_keys" and "stat_traits crd (k, d) = [a, b]"
  shows "\<exists>pre post. attributes (build_metadata crd idx) = pre @ [a, b] @ post"
proof -
  from assms(1) obtain ys zs where split: "stat_keys = ys @ (k, d) # zs"
    by (auto simp: in_set_conv_decomp)
  have "concat (map (stat_traits crd) (ys @ (k, d) # zs)) =
      concat (map (stat_traits crd) ys) @ [a, b] @ concat (map (stat_traits crd) zs)"
    using assms(2) by simp
  then have "concat (map (stat_traits crd) stat_keys) =
      concat (map (stat_traits crd) ys) @ [a, b] @ concat (map (stat_traits crd) zs)"
    by (simp only: split)
  then have "attributes (build_metadata crd idx) =
      (standard_traits crd @ concat (map (stat_traits crd) ys)) @ [a, b] @
      (concat (map (stat_traits crd) zs) @
       (if truthy (dict_get crd ''theme'') \<and> is_dict (dict_get crd ''theme'')
        then theme_traits (dict_get crd ''theme'') else []))"
    by (simp add: attributes_build_metadata)
  then show ?thesis by blast
qed

lemma traits_of_type_Cons_trait:
  "traits_of_type t (trait t' v # xs) =
     (if t = t' then trait t' v # traits_of_type t xs else traits_of_type t xs)"
  by (auto simp: traits_of_type_def trait_def dict_get_def dict_get_default_def)

lemma traits_of_type_stat_value:
  "traits_of_type d (stat_traits crd (k, d)) =
     (if is_dict (dict_get crd k) \<and> truthy (obj_get (dict_get crd k) ''value'')
      then [trait d (JStr (py_str (obj_get (dict_get crd k) ''value'')))] else [])"
  by (simp add: stat_traits_eq traits_of_type_Cons_trait)

lemma traits_of_type_stat_gradient:
  "traits_of_type (d @ '' Gradient'') (stat_traits crd (k, d)) =
     (if is_dict (dict_get crd k) \<and> truthy (obj_get (dict_get crd k) ''value'') \<and>
         truthy (obj_get (dict_get crd k) ''color'')
      then [trait (d @ '' Gradient'') (obj_get (dict_get crd k) ''color'')] else [])"
  by (simp add: stat_traits_eq traits_of_type_Cons_trait)

lemma traits_of_type_stat_other:
  "t \<noteq> d \<Longrightarrow> t \<noteq> d @ '' Gradient'' \<Longrightarrow> traits_of_type t (stat_traits crd (k, d)) = []"
  by (simp add: stat_traits_eq traits_of_type_Cons_trait)

lemma traits_of_type_stats:
  assumes "(k, d) \<in> set stat_keys"
  shows "traits_of_type d (concat (map (stat_traits crd) stat_keys)) =
           traits_of_type d (stat_traits crd (k, d)) \<and>
         traits_of_type (d @ '' Gradient'') (concat (map (stat_traits crd) stat_keys)) =
           traits_of_type (d @ '' Gradient'') (stat_traits crd (k, d))"
proof -
  from assms have "(k, d) = (''hp'', ''HP'') \<or> (k, d) = (''manaCost'', ''Mana Cost'') \<or>
      (k, d) = (''crit'', ''Crit'')"
    by (simp add: stat_keys_def)
  then show ?thesis
    by (elim disjE) (simp_all add: stat_keys_def traits_of_type_stat_other)
qed

section \<open>The slug\<close>

lemma alnum_not_hyphen: "is_alnum c \<Longrightarrow> c \<noteq> CHR ''-''"
  by (auto simp: is_alnum_def)

lemma re_sub_alnum_prefix:
  "\<forall>x \<in> set a. is_alnum x \<Longrightarrow> re_sub_non_alnum repl (a @ u) = a @ re_sub_non_alnum repl u"
  by (induction a) simp_all

lemma re_sub_starts_alnum:
  "t = [] \<or> is_alnum (hd t) \<Longrightarrow>
   dropWhile (\<lambda>x. x = CHR ''-'') (re_sub_non_alnum ''-'' t) = re_sub_non_alnum ''-'' t"
  by (cases t) (auto simp: alnum_not_hyphen)

lemma re_sub_drop_leading:
  "dropWhile (\<lambda>x. x = CHR ''-'') (re_sub_non_alnum ''-'' s) =
   re_sub_non_alnum ''-'' (dropWhile (\<lambda>x. \<not> is_alnum x) s)"
proof (cases s)
  case Nil
  then show ?thesis by simp
next
  case (Cons c cs)
  show ?thesis
  proof (cases "is_alnum c")
    case True
    with Cons show ?thesis by (simp add: alnum_not_hyphen)
  next
    case False
    let ?t = "dropWhile (\<lambda>x. \<not> is_alnum x) cs"
    have "?t = [] \<or> is_alnum (hd ?t)"
      using hd_dropWhile [of "\<lambda>x. \<not> is_alnum x" cs] by auto
    from re_sub_starts_alnum [OF this] Cons False show ?thesis by simp
  qed
qed

lemma strip_trailing_append:
  "rev (dropWhile P (rev (x @ y))) =
     (if \<forall>z \<in> set y. P z then rev (dropWhile P (rev x)) else x @ rev (dropWhile P (rev y)))"
  by (simp add: dropWhile_append)

lemma strip_trailing_append_all:
  "\<forall>z \<in> set y. P z \<Longrightarrow> rev (dropWhile P (rev (x @ y))) = rev (dropWhile P (rev x))"
  by (simp add: dropWhile_append)

lemma strip_trailing_append_some:
  "\<not> (\<forall>z \<in> set y. P z) \<Longrightarrow> rev (dropWhile P (rev (x @ y))) = x @ rev (dropWhile P (rev y))"
  by (auto simp: dropWhile_append)

lemma strip_trailing_id: "a \<noteq> [] \<Longrightarrow> \<not> P (last a) \<Longrightarrow> rev (dropWhile P (rev a)) = a"
  by (cases a rule: rev_cases) simp_all

lemma strip_trailing_Nil_iff: "rev (dropWhile P (rev y)) = [] \<longleftrightarrow> (\<forall>z \<in> set y. P z)"
  by simp

lemma join_Cons: "join sep (x # xs) = (if xs = [] then x else x @ sep @ join sep xs)"
  by (cases xs) simp_all

lemma join_eq_Nil_iff: "\<forall>x \<in> set xs. x \<noteq> [] \<Longrightarrow> join sep xs = [] \<longleftrightarrow> xs = []"
  by (cases xs) (simp_all add: join_Cons)

lemma alnum_runs_not_Nil: "x \<in> set (alnum_runs s) \<Longrightarrow> x \<noteq> []"
proof (induction s arbitrary: x rule: alnum_runs.induct)
  case (1 s)
  show ?case
  proof (cases "dropWhile (\<lambda>x. \<not> is_alnum x) s")
    case Nil
    with "1.prems" show ?thesis
      by (simp add: alnum_runs.simps [of s])
  next
    case (Cons c cs)
    with "1.prems" "1.IH" [OF Cons] show ?thesis
      by (auto simp: alnum_runs.simps [of s])
  qed
qed

lemma join_alnum_runs_Nil_iff: "join sep (alnum_runs s) = [] \<longleftrightarrow> alnum_runs s = []"
  using alnum_runs_not_Nil [of _ s] by (intro join_eq_Nil_iff) blast

lemma strip_trailing_re_sub:
  "rev (dropWhile (\<lambda>x. x = CHR ''-'')
         (rev (re_sub_non_alnum ''-'' (dropWhile (\<lambda>x. \<not> is_alnum x) s)))) =
   join ''-'' (alnum_runs s)"
proof (induction s rule: alnum_runs.induct)
  case (1 s)
  let ?H = "\<lambda>x. x = CHR ''-''"
  let ?R = "re_sub_non_alnum ''-''"
  show ?case
  proof (cases "dropWhile (\<lambda>x. \<not> is_alnum x) s")
    case Nil
    show ?thesis
      unfolding alnum_runs.simps [of s] Nil by simp
  next
    case (Cons c cs)
    let ?a = "c # takeWhile is_alnum cs"
    let ?u = "dropWhile is_alnum cs"
    let ?v = "dropWhile (\<lambda>x. \<not> is_alnum x) ?u"
    have c: "is_alnum c"
      using hd_dropWhile [of "\<lambda>x. \<not> is_alnum x" s] Cons by simp
    have a: "\<forall>x \<in> set ?a. is_alnum x"
      using c by (auto dest: set_takeWhileD)
    have la: "\<not> ?H (last ?a)"
      using a alnum_not_hyphen [of "last ?a"] last_in_set [of ?a] by blast
    have runs: "alnum_runs s = ?a # alnum_runs ?u"
      using Cons by (simp add: alnum_runs.simps [of s])
    have "c # cs = ?a @ ?u" by simp
    then have R: "?R (c # cs) = ?a @ ?R ?u"
      using re_sub_alnum_prefix [OF a, of "''-''" ?u] by simp
    have IH: "rev (dropWhile ?H (rev (?R ?v))) = join ''-'' (alnum_runs ?u)"
      using "1.IH" [OF Cons] .
    have strip_a: "rev (dropWhile ?H (rev ?a)) = ?a"
      by (rule strip_trailing_id) (simp, rule la)
    show ?thesis
    proof (cases ?u)
      case Nil
      have "alnum_runs [] = []"
        by (simp add: alnum_runs.simps [of "[]"])
      then have runs_s: "alnum_runs s = [?a]"
        unfolding runs Nil by simp
      have Rc: "?R (c # cs) = ?a"
        unfolding R Nil by simp
      show ?thesis
        unfolding Cons Rc runs_s strip_a by simp
    next
      case u: (Cons d ds)
      have d: "\<not> is_alnum d"
        using hd_dropWhile [of is_alnum cs] u by simp
      have "?R (d # ds) = ''-'' @ ?R (dropWhile (\<lambda>x. \<not> is_alnum x) (d # ds))"
        using d by simp
      then have Ru: "?R ?u = ''-'' @ ?R ?v"
        unfolding u .
      have full: "?R (c # cs) = (?a @ ''-'') @ ?R ?v"
        unfolding R Ru by simp
      have strip_a': "rev (dropWhile ?H (rev (?a @ ''-''))) = ?a"
        unfolding strip_trailing_append strip_a by simp
      show ?thesis
      proof (cases "\<forall>z \<in> set (?R ?v). ?H z")
        case True
        then have "rev (dropWhile ?H (rev (?R ?v))) = []"
          unfolding strip_trailing_Nil_iff .
        then have "join ''-'' (alnum_runs ?u) = []"
          unfolding IH .
        then have "alnum_runs ?u = []"
          unfolding join_alnum_runs_Nil_iff .
        then have runs_s: "alnum_runs s = [?a]"
          unfolding runs by simp
        have "rev (dropWhile ?H (rev (?R (c # cs)))) = ?a"
          unfolding full strip_trailing_append_all [OF True] strip_a' ..
        then show ?thesis
          unfolding Cons runs_s by simp
      next
        case False
        then have "rev (dropWhile ?H (rev (?R ?v))) \<noteq> []"
          unfolding strip_trailing_Nil_iff .
        then have "join ''-'' (alnum_runs ?u) \<noteq> []"
          unfolding IH .
        then have ne: "alnum_runs ?u \<noteq> []"
          unfolding join_alnum_runs_Nil_iff .
        have "rev (dropWhile ?H (rev (?R (c # cs)))) =
                (?a @ ''-'') @ rev (dropWhile ?H (rev (?R ?v)))"
          unfolding full strip_trailing_append_some [OF False] ..
        then have "rev (dropWhile ?H (rev (?R (c # cs)))) =
                (?a @ ''-'') @ join ''-'' (alnum_runs ?u)"
          unfolding IH .
        then show ?thesis
          unfolding Cons runs join_Cons using ne by simp
      qed
    qed
  qed
qed

lemma slug_of_spec: "slug_of name = slug_spec name"
  by (simp add: py_strip_def slug_spec_def re_sub_drop_leading strip_trailing_re_sub)

section \<open>The index map\<close>

lemma index_entries_other:
  "\<forall>j<length cs. card_name (k + j) (cs ! j) \<noteq> Some n \<Longrightarrow>
   map_of (index_entries k cs m) n = map_of m n"
proof (induction cs arbitrary: k m)
  case Nil
  show ?case by simp
next
  case (Cons c cs)
  have head: "card_name k c \<noteq> Some n"
    using Cons.prems by fastforce
  have "\<forall>j<length cs. card_name (Suc k + j) (cs ! j) \<noteq> Some n"
    using Cons.prems by fastforce
  from Cons.IH [OF this] head show ?case
    by (auto simp: update_conv' split: option.splits)
qed

lemma index_entries_last:
  "j < length cs \<Longrightarrow> card_name (k + j) (cs ! j) = Some n \<Longrightarrow>
   \<forall>j'. j < j' \<and> j' < length cs \<longrightarrow> card_name (k + j') (cs ! j') \<noteq> Some n \<Longrightarrow>
   map_of (index_entries k cs m) n = Some (index_entry (k + j) n)"
proof (induction cs arbitrary: k m j)
  case Nil
  then show ?case by simp
next
  case (Cons c cs)
  show ?case
  proof (cases j)
    case 0
    with Cons.prems(3) have "\<forall>j<length cs. card_name (Suc k + j) (cs ! j) \<noteq> Some n"
      by fastforce
    from index_entries_other [OF this] Cons.prems(2) 0 show ?thesis
      by (simp add: update_conv')
  next
    case (Suc j0)
    have 1: "j0 < length cs" and 2: "card_name (Suc k + j0) (cs ! j0) = Some n"
      using Cons.prems(1,2) Suc by simp_all
    have 3: "\<forall>j'. j0 < j' \<and> j' < length cs \<longrightarrow> card_name (Suc k + j') (cs ! j') \<noteq> Some n"
    proof (intro allI impI)
      fix j' assume "j0 < j' \<and> j' < length cs"
      then have "j < Suc j' \<and> Suc j' < length (c # cs)"
        using Suc by simp
      with Cons.prems(3) have "card_name (k + Suc j') ((c # cs) ! Suc j') \<noteq> Some n"
        by blast
      then show "card_name (Suc k + j') (cs ! j') \<noteq> Some n" by simp
    qed
    from Cons.IH [OF 1 2 3] Suc show ?thesis by simp
  qed
qed

lemma index_entries_distinct:
  "distinct (map fst m) \<Longrightarrow> distinct (map fst (index_entries k cs m))"
  by (induction cs arbitrary: k m) (auto simp: distinct_update split: option.splits)

section \<open>Runs that complete\<close>

lemma regular_dir_no_Folder: "regular_dir d \<Longrightarrow> map_of d n \<noteq> Some Folder"
  by (auto simp: regular_dir_def dest!: map_of_SomeD intro: rev_image_eqI)

lemma set_update_subset: "set (AList.update k v d) \<subseteq> insert (k, v) (set d)"
  by (induction d) auto

lemma regular_dir_update: "regular_dir d \<Longrightarrow> regular_dir (AList.update k (File c) d)"
  using set_update_subset [of k "File c" d]
  by (auto simp: regular_dir_def distinct_update)

lemma regular_dir_delete: "regular_dir d \<Longrightarrow> regular_dir (AList.delete k d)"
proof -
  have "set (AList.delete k d) \<subseteq> set d"
    by (auto simp: AList.delete_eq)
  then show "regular_dir d \<Longrightarrow> regular_dir (AList.delete k d)"
    by (auto simp: regular_dir_def distinct_delete)
qed

lemma sync_card_completes:
  assumes "card_name i c \<noteq> None" and "regular_dir (files st)"
  shows "\<exists>st'. sync_card force i c st = Inr st' \<and> regular_dir (files st')"
proof -
  from assms(1) obtain name where name: "card_name i c = Some name" by auto
  from assms(2) show ?thesis
    by (simp add: sync_card_Some [OF name] regular_dir_no_Folder regular_dir_update)
qed

lemma sync_loop_completes:
  "\<forall>j<length cs. card_name (k + j) (cs ! j) \<noteq> None \<Longrightarrow> regular_dir (files st) \<Longrightarrow>
   \<exists>st'. sync_loop force k cs st = Inr st' \<and> regular_dir (files st')"
proof (induction cs arbitrary: k st)
  case Nil
  then show ?case by simp
next
  case (Cons c cs)
  have "card_name k c \<noteq> None"
    using Cons.prems(1) by fastforce
  from sync_card_completes [OF this Cons.prems(2)] obtain st1 where
    1: "sync_card force k c st = Inr st1" and r: "regular_dir (files st1)"
    by blast
  have "\<forall>j<length cs. card_name (Suc k + j) (cs ! j) \<noteq> None"
    using Cons.prems(1) by fastforce
  from Cons.IH [OF this r] 1 show ?case by simp
qed

lemma reconcile_regular:
  "reconcile names st = Inr st' \<Longrightarrow> regular_dir (files st) \<Longrightarrow> regular_dir (files st')"
proof (induction names arbitrary: st)
  case Nil
  then show ?case by simp
next
  case (Cons fname rest)
  show ?case
  proof (cases "stale_name (total st) fname")
    case False
    with Cons show ?thesis
      by (simp add: reconcile_Cons del: reconcile.simps(2))
  next
    case True
    with Cons.prems(1) obtain d where d: "os_remove fname (files st) = Inr d"
      and r: "reconcile rest (st\<lparr>files := d, stale := stale st + 1\<rparr>) = Inr st'"
      by (auto simp: reconcile_Cons simp del: reconcile.simps split: sum.splits)
    from d have "d = AList.delete fname (files st)"
      by (auto simp: os_remove_def split: option.splits entry.splits)
    with Cons.prems(2) have "regular_dir (files (st\<lparr>files := d, stale := stale st + 1\<rparr>))"
      by (simp add: regular_dir_delete)
    from Cons.IH [OF r this] show ?thesis .
  qed
qed

lemma reconcile_completes:
  assumes "regular_dir (files st)"
  shows "\<exists>st'. reconcile (os_listdir (files st)) st = Inr st' \<and> regular_dir (files st')"
proof -
  have 1: "distinct (os_listdir (files st))"
    using assms by (simp add: regular_dir_def os_listdir_def)
  have 2: "\<forall>n \<in> set (os_listdir (files st)).
          stale_name (total st) n \<longrightarrow> (\<exists>c. map_of (files st) n = Some (File c))"
  proof (intro ballI impI)
    fix n assume "n \<in> set (os_listdir (files st))"
    then obtain e where e: "map_of (files st) n = Some e"
      by (auto simp: listed_iff)
    with regular_dir_no_Folder [OF assms, of n] show "\<exists>c. map_of (files st) n = Some (File c)"
      by (cases e) auto
  qed
  from reconcile_succeeds [OF 1 2] obtain st' where
    r: "reconcile (os_listdir (files st)) st = Inr st'" ..
  with reconcile_regular [OF r assms] show ?thesis by blast
qed

lemma run_completes:
  assumes "\<forall>i<length cards. card_name i (cards ! i) \<noteq> None"
    and "regular_dir (os_makedirs fs)"
  shows "\<exists>st. run force (Some (JArr cards)) fs = Inr st \<and> regular_dir (files st)"
proof -
  let ?st0 = "\<lparr>files = os_makedirs fs, index_map = [], written = 0, skipped = 0,
                total = length cards, stale = 0\<rparr>"
  have "\<forall>j<length cards. card_name (0 + j) (cards ! j) \<noteq> None"
    using assms(1) by simp
  from sync_loop_completes [OF this, of ?st0 force] assms(2) obtain st1 where
    1: "sync_loop force 0 cards ?st0 = Inr st1" and r1: "regular_dir (files st1)"
    by auto
  from reconcile_completes [OF r1] obtain st2 where
    2: "reconcile (os_listdir (files st1)) st1 = Inr st2" and r2: "regular_dir (files st2)"
    by blast
  let ?d = "AList.update ''index.json'' (File (dumps_indent 0 (JObj (index_map st2)))) (files st2)"
  have 3: "write_file ''index.json'' (dumps_indent 0 (JObj (index_map st2))) (files st2) = Inr ?d"
    using regular_dir_no_Folder [OF r2, of "''index.json''"]
    by (simp add: write_file_def split: option.splits entry.splits)
  have "run force (Some (JArr cards)) fs = Inr (st2\<lparr>files := ?d\<rparr>)"
    using 1 2 3 by (simp add: run_def)
  moreover have "regular_dir (files (st2\<lparr>files := ?d\<rparr>))"
    using r2 by (simp add: regular_dir_update)
  ultimately show ?thesis by blast
qed

lemma run_regular:
  assumes "run force (Some (JArr cards)) fs = Inr st" and "regular_dir (os_makedirs fs)"
  shows "regular_dir (files st)"
proof -
  have "\<forall>i<length cards. card_name i (cards ! i) \<noteq> None"
    using run_card_name [OF assms(1)] by simp
  from run_completes [OF this assms(2), of force] assms(1) show ?thesis
    by auto
qed

lemma card_name_None_iff:
  "card_name i c \<noteq> None \<longleftrightarrow>
   (\<exists>crd. c = JObj crd \<and>
      (map_of crd ''name'' = None \<or> (\<exists>name. map_of crd ''name'' = Some (JStr name))))"
  by (cases c) (auto simp: dict_get_default_def split: option.splits json.splits)

text \<open>
  On an output directory of regular files a run over a list of cards completes exactly
  when every card is a dictionary whose name field is absent or a string.
\<close>

theorem run_completion:
  assumes "regular_dir (os_makedirs fs)"
  shows "(\<exists>st. run force (Some (JArr cards)) fs = Inr st) \<longleftrightarrow>
         (\<forall>i<length cards. \<exists>crd. cards ! i = JObj crd \<and>
            (map_of crd ''name'' = None \<or> (\<exists>name. map_of crd ''name'' = Some (JStr name))))"
proof
  assume "\<exists>st. run force (Some (JArr cards)) fs = Inr st"
  then obtain st where "run force (Some (JArr cards)) fs = Inr st" ..
  from run_card_name [OF this]
  have "\<forall>i<length cards. card_name i (cards ! i) \<noteq> None"
    by simp
  then show "\<forall>i<length cards. \<exists>crd. cards ! i = JObj crd \<and>
          (map_of crd ''name'' = None \<or> (\<exists>name. map_of crd ''name'' = Some (JStr name)))"
    unfolding card_name_None_iff .
next
  assume "\<forall>i<length cards. \<exists>crd. cards ! i = JObj crd \<and>
          (map_of crd ''name'' = None \<or> (\<exists>name. map_of crd ''name'' = Some (JStr name)))"
  then have "\<forall>i<length cards. card_name i (cards ! i) \<noteq> None"
    unfolding card_name_None_iff .
  from run_completes [OF this assms, of force]
  show "\<exists>st. run force (Some (JArr cards)) fs = Inr st"
    by blast
qed

theorem run_completion_witness:
  "(\<exists>st. run True (Some (JArr [JObj [(''name'', JStr ''A'')], JObj []]))
            (Some [(''0.json'', File ''old''), (''9.json'', File ''stale'')]) = Inr st) \<and>
   \<not> (\<exists>st. run True (Some (JArr [JObj [(''name'', JInt 5)]])) None = Inr st)"
proof -
  have r: "regular_dir (os_makedirs (Some [(''0.json'', File ''old''), (''9.json'', File ''stale'')]))"
    "regular_dir (os_makedirs None)"
    by (simp_all add: regular_dir_def os_makedirs_def)
  have 1: "\<exists>st. run True (Some (JArr [JObj [(''name'', JStr ''A'')], JObj []]))
            (Some [(''0.json'', File ''old''), (''9.json'', File ''stale'')]) = Inr st"
    unfolding run_completion [OF r(1)] by (simp add: less_Suc_eq)
  have 2: "\<not> (\<exists>st. run True (Some (JArr [JObj [(''name'', JInt 5)]])) None = Inr st)"
    unfolding run_completion [OF r(2)] by simp
  from 1 2 show ?thesis ..
qed

lemma card_doc_JObj:
  "card_name i c \<noteq> None \<Longrightarrow> \<exists>crd. c = JObj crd \<and> card_doc i c = serialize (JObj (build_metadata crd i))"
  by (cases c) auto

section \<open>The claims\<close>

text \<open>
  C3 (completeness). When a run over \<open>N\<close> card records completes, the output directory
  holds, for every position \<open>i < N\<close>, the document \<^verbatim>\<open>i.json\<close> with the serialized
  metadata of the record at that position; it holds no document \<^verbatim>\<open>i.json\<close> for any
  \<open>i \<ge> N\<close>; and it holds the index file with the index map of the run. A document is
  a file the script names, \<^verbatim>\<open>f"{i}.json"\<close> for a position \<open>i\<close>; other entries of the
  directory (\<^verbatim>\<open>notes.txt\<close>, \<^verbatim>\<open>01.json\<close>) are not documents, and the run leaves those
  it does not take for stale where they are.
\<close>

theorem completeness:
  assumes "run force (Some (JArr cards)) fs = Inr st"
  shows "(\<forall>i<length cards. \<exists>crd. cards ! i = JObj crd \<and>
            map_of (files st) (doc_name i) = Some (File (serialize (JObj (build_metadata crd i))))) \<and>
         (\<forall>i\<ge>length cards. map_of (files st) (doc_name i) = None) \<and>
         map_of (files st) ''index.json'' = Some (File (dumps_indent 0 (JObj (index_map st))))"
proof (intro conjI allI impI)
  fix i assume i: "i < length cards"
  then have "card_name i (cards ! i) \<noteq> None"
    using run_card_name [OF assms, of i] by simp
  then obtain crd where "cards ! i = JObj crd"
    and "card_doc i (cards ! i) = serialize (JObj (build_metadata crd i))"
    using card_doc_JObj by blast
  with run_files_doc [OF assms, of i] i
  show "\<exists>crd. cards ! i = JObj crd \<and>
          map_of (files st) (doc_name i) = Some (File (serialize (JObj (build_metadata crd i))))"
    by simp
next
  fix i assume "length cards \<le> i"
  then have "stale_name (length (py_iter (JArr cards))) (doc_name i)"
    by (simp add: stale_name_doc_name)
  from run_files_stale [OF assms this] show "map_of (files st) (doc_name i) = None" .
next
  from run_files_index [OF assms]
  show "map_of (files st) ''index.json'' = Some (File (dumps_indent 0 (JObj (index_map st))))" .
qed

theorem completeness_witness:
  "\<exists>st. run False (Some (JArr [JObj [(''name'', JStr ''A'')], JObj []]))
           (Some [(''5.json'', File ''old''), (''notes.txt'', File ''x'')]) = Inr st \<and>
        (\<forall>i<2. \<exists>crd. [JObj [(''name'', JStr ''A'')], JObj []] ! i = JObj crd \<and>
            map_of (files st) (doc_name i) = Some (File (serialize (JObj (build_metadata crd i))))) \<and>
        (\<forall>i\<ge>2. map_of (files st) (doc_name i) = None) \<and>
        map_of (files st) ''index.json'' = Some (File (dumps_indent 0 (JObj (index_map st))))"
proof -
  have "case run False (Some (JArr [JObj [(''name'', JStr ''A'')], JObj []]))
           (Some [(''5.json'', File ''old''), (''notes.txt'', File ''x'')]) of
          Inl e \<Rightarrow> False | Inr st \<Rightarrow> True"
    by code_simp
  then obtain st where st: "run False (Some (JArr [JObj [(''name'', JStr ''A'')], JObj []]))
           (Some [(''5.json'', File ''old''), (''notes.txt'', File ''x'')]) = Inr st"
    by (auto split: sum.splits)
  from completeness [OF st] st show ?thesis by simp
qed

text \<open>
  C5 (force mode). A completed run with \<^verbatim>\<open>--force\<close> counts every card as written and none
  as unchanged, and it leaves every document in the output directory with the text made
  for its card, whatever the directory held before: with the flag set the loop never
  reads the file it is about to write. The witness runs it on a directory whose documents
  already have the very text the run writes, and on no directory at all.
\<close>

theorem force_mode:
  assumes "run True (Some (JArr cards)) fs = Inr st"
  shows "written st = length cards \<and> skipped st = 0 \<and> total st = length cards \<and>
         (\<forall>i<length cards. \<exists>crd. cards ! i = JObj crd \<and>
            map_of (files st) (doc_name i) = Some (File (serialize (JObj (build_metadata crd i)))))"
proof -
  have "\<exists>crd. cards ! i = JObj crd \<and>
          map_of (files st) (doc_name i) = Some (File (serialize (JObj (build_metadata crd i))))"
    if i: "i < length cards" for i
  proof -
    from i have "card_name i (cards ! i) \<noteq> None"
      using run_card_name [OF assms, of i] by simp
    then obtain crd where "cards ! i = JObj crd"
      and "card_doc i (cards ! i) = serialize (JObj (build_metadata crd i))"
      using card_doc_JObj by blast
    with run_files_doc [OF assms, of i] i show ?thesis
      by simp
  qed
  with run_counters(1,3) [OF assms] show ?thesis
    by simp
qed

theorem force_mode_witness:
  "\<exists>st1 st2 st3.
     run False (Some (JArr [JObj [(''name'', JStr ''A'')], JObj []])) None = Inr st1 \<and>
     run True (Some (JArr [JObj [(''name'', JStr ''A'')], JObj []])) (Some (files st1)) = Inr st2 \<and>
     files st2 = files st1 \<and>
     written st2 = 2 \<and> skipped st2 = 0 \<and> total st2 = 2 \<and>
     map_of (files st2) (doc_name 0) =
       Some (File (serialize (JObj (build_metadata [(''name'', JStr ''A'')] 0)))) \<and>
     map_of (files st2) (doc_name 1) = Some (File (serialize (JObj (build_metadata [] 1)))) \<and>
     run True (Some (JArr [JObj [(''name'', JStr ''A'')], JObj []])) None = Inr st3 \<and>
     written st3 = 2 \<and>
     map_of (files st3) (doc_name 0) =
       Some (File (serialize (JObj (build_metadata [(''name'', JStr ''A'')] 0)))) \<and>
     map_of (files st3) (doc_name 1) = Some (File (serialize (JObj (build_metadata [] 1))))"
proof -
  let ?cards = "[JObj [(''name'', JStr ''A'')], JObj []]"
  have "case run False (Some (JArr ?cards)) None of
          Inl e \<Rightarrow> False
        | Inr st1 \<Rightarrow>
            (case run True (Some (JArr ?cards)) (Some (files st1)) of
               Inl e \<Rightarrow> False
             | Inr st2 \<Rightarrow> files st2 = files st1)"
    by code_simp
  then obtain st1 st2 where
    1: "run False (Some (JArr ?cards)) None = Inr st1"
    and 2: "run True (Some (JArr ?cards)) (Some (files st1)) = Inr st2"
    and 3: "files st2 = files st1"
    by (auto split: sum.splits)
  have "case run True (Some (JArr ?cards)) None of Inl e \<Rightarrow> False | Inr st3 \<Rightarrow> True"
    by code_simp
  then obtain st3 where 4: "run True (Some (JArr ?cards)) None = Inr st3"
    by (auto split: sum.splits)
  note f2 = force_mode [OF 2]
  note f3 = force_mode [OF 4]
  have d2: "map_of (files st2) (doc_name 0) =
       Some (File (serialize (JObj (build_metadata [(''name'', JStr ''A'')] 0))))"
    "map_of (files st2) (doc_name 1) = Some (File (serialize (JObj (build_metadata [] 1))))"
    using f2 [THEN conjunct2, THEN conjunct2, THEN conjunct2, rule_format, of 0]
      f2 [THEN conjunct2, THEN conjunct2, THEN conjunct2, rule_format, of 1]
    by simp_all
  have d3: "map_of (files st3) (doc_name 0) =
       Some (File (serialize (JObj (build_metadata [(''name'', JStr ''A'')] 0))))"
    "map_of (files st3) (doc_name 1) = Some (File (serialize (JObj (build_metadata [] 1))))"
    using f3 [THEN conjunct2, THEN conjunct2, THEN conjunct2, rule_format, of 0]
      f3 [THEN conjunct2, THEN conjunct2, THEN conjunct2, rule_format, of 1]
    by simp_all
  have c2: "written st2 = 2" "skipped st2 = 0" "total st2 = 2" and c3: "written st3 = 2"
    using f2 f3 by simp_all
  from 1 2 3 4 d2 d3 c2 c3 show ?thesis
    by (intro exI [of _ st1] exI [of _ st2] exI [of _ st3] conjI)
qed

text \<open>
  C1 (idempotence). When a run has completed, with or without \<^verbatim>\<open>--force\<close> and from any
  output directory, a second run without \<^verbatim>\<open>--force\<close> on the same input and on the
  directory the first run left completes as well, writes no document and counts every
  card as unchanged, the count of the cards being the length of the input list; it
  removes nothing and leaves the directory as it found it.
\<close>

theorem idempotence:
  assumes "run force inp fs = Inr st1"
  shows "run False inp (Some (files st1)) =
           Inr (st1\<lparr>written := 0, skipped := total st1, stale := 0\<rparr>) \<and>
         (\<forall>cards. inp = Some (JArr cards) \<longrightarrow> total st1 = length cards)"
proof -
  from assms obtain doc where inp: "inp = Some doc"
    and len: "py_len doc = Some (length (py_iter doc))"
    by (auto elim!: run_Inr)
  note r = assms [unfolded inp]
  let ?cs = "py_iter doc"
  let ?st0 = "\<lparr>files = files st1, index_map = [], written = 0, skipped = 0,
                total = length ?cs, stale = 0\<rparr>"
  let ?sta = "\<lparr>files = files st1, index_map = index_map st1, written = 0,
                skipped = length ?cs, total = length ?cs, stale = 0\<rparr>"
  have "\<forall>j<length ?cs. card_name (0 + j) (?cs ! j) \<noteq> None \<and>
          map_of (files ?st0) (doc_name (0 + j)) = Some (File (card_doc (0 + j) (?cs ! j)))"
    using run_card_name [OF r] run_files_doc [OF r] by simp
  from sync_loop_skip [OF this]
  have sync: "sync_loop False 0 ?cs ?st0 = Inr ?sta"
    by (simp add: run_counters(4) [OF r])
  have "\<forall>n \<in> set (os_listdir (files ?sta)). \<not> stale_name (total ?sta) n"
    using run_files_stale [OF r] by (auto simp: listed_iff)
  then have rec: "reconcile (os_listdir (files ?sta)) ?sta = Inr ?sta"
    by (rule reconcile_nothing_stale)
  have idx: "write_file ''index.json'' (dumps_indent 0 (JObj (index_map ?sta))) (files ?sta)
               = Inr (files st1)"
    using run_files_index [OF r] by (simp add: write_file_def update_triv)
  have "run False (Some doc) (Some (files st1)) = Inr ?sta"
    using sync rec idx by (simp add: run_def len os_makedirs_def)
  moreover have "?sta = st1\<lparr>written := 0, skipped := total st1, stale := 0\<rparr>"
    using run_counters(1) [OF r] by simp
  ultimately have "run False inp (Some (files st1)) =
           Inr (st1\<lparr>written := 0, skipped := total st1, stale := 0\<rparr>)"
    by (simp add: inp)
  moreover have "\<forall>cards. inp = Some (JArr cards) \<longrightarrow> total st1 = length cards"
    using run_counters(1) [OF r] inp by auto
  ultimately show ?thesis ..
qed

theorem idempotence_witness:
  "\<exists>st1. run False (Some (JArr [JObj [(''name'', JStr ''A'')], JObj []]))
             (Some [(''7.json'', File ''old''), (''0.json'', File ''other'')]) = Inr st1 \<and>
          written st1 = 2 \<and>
          run False (Some (JArr [JObj [(''name'', JStr ''A'')], JObj []])) (Some (files st1)) =
            Inr (st1\<lparr>written := 0, skipped := 2, stale := 0\<rparr>)"
proof -
  have "case run False (Some (JArr [JObj [(''name'', JStr ''A'')], JObj []]))
             (Some [(''7.json'', File ''old''), (''0.json'', File ''other'')]) of
          Inl e \<Rightarrow> False
        | Inr st1 \<Rightarrow> written st1 = 2 \<and> total st1 = 2"
    by code_simp
  then obtain st1 where
    1: "run False (Some (JArr [JObj [(''name'', JStr ''A'')], JObj []]))
             (Some [(''7.json'', File ''old''), (''0.json'', File ''other'')]) = Inr st1"
    and 2: "written st1 = 2" "total st1 = 2"
    by (auto split: sum.splits)
  from idempotence [OF 1, THEN conjunct1] 1 2 show ?thesis by simp
qed

text \<open>
  C4 (staleness). Let a run over \<open>N\<close> records have completed, and let the script run
  again without \<^verbatim>\<open>--force\<close>, over the first \<open>m < N\<close> of the same records and on the
  directory the first run left. If the first run started from a directory of regular
  files (or from none), the second run completes. Whenever it completes, it writes no
  document and counts the \<open>m\<close> cards as unchanged; the documents of the positions below
  \<open>m\<close> are there with the text they had; the documents that were there and are gone are
  exactly those of the positions from \<open>m\<close> to \<open>N - 1\<close>; and but for the index file,
  every entry whose name the reconciler does not take for stale is as it was.
\<close>

theorem staleness:
  assumes "run force (Some (JArr cards)) fs = Inr st1"
    and "m < length cards"
  shows "(regular_dir (os_makedirs fs) \<longrightarrow>
            (\<exists>st2. run False (Some (JArr (take m cards))) (Some (files st1)) = Inr st2)) \<and>
         (\<forall>st2. run False (Some (JArr (take m cards))) (Some (files st1)) = Inr st2 \<longrightarrow>
            written st2 = 0 \<and> skipped st2 = m \<and>
            (\<forall>i<m. map_of (files st1) (doc_name i) \<noteq> None \<and>
                    map_of (files st2) (doc_name i) = map_of (files st1) (doc_name i)) \<and>
            {i. map_of (files st1) (doc_name i) \<noteq> None \<and> map_of (files st2) (doc_name i) = None}
              = {m..<length cards} \<and>
            (\<forall>n. n \<noteq> ''index.json'' \<and> \<not> stale_name m n \<longrightarrow>
                   map_of (files st2) n = map_of (files st1) n))"
proof (intro conjI impI allI)
  assume "regular_dir (os_makedirs fs)"
  then have "regular_dir (os_makedirs (Some (files st1)))"
    using run_regular [OF assms(1)] by (simp add: os_makedirs_def)
  moreover have "\<forall>i<length (take m cards). card_name i (take m cards ! i) \<noteq> None"
    using run_card_name [OF assms(1)] assms(2) by simp
  ultimately show "\<exists>st2. run False (Some (JArr (take m cards))) (Some (files st1)) = Inr st2"
    using run_completes [of "take m cards" "Some (files st1)" False] by blast
next
  fix st2
  assume run2: "run False (Some (JArr (take m cards))) (Some (files st1)) = Inr st2"
  let ?cs = "py_iter (JArr (take m cards))"
  let ?st0 = "\<lparr>files = os_makedirs (Some (files st1)), index_map = [], written = 0,
                skipped = 0, total = length ?cs, stale = 0\<rparr>"
  have m: "length ?cs = m"
    using assms(2) by simp
  from run2 obtain sta where
    sync: "sync_loop False 0 ?cs ?st0 = Inr sta"
    and f: "\<forall>n. map_of (files st2) n =
           (if n = ''index.json'' then Some (File (dumps_indent 0 (JObj (index_map st2))))
            else if stale_name (length ?cs) n then None
            else map_of (files sta) n)"
    and eqs: "index_map st2 = index_map sta" "written st2 = written sta"
      "skipped st2 = skipped sta" "total st2 = total sta"
    by (rule run_Inr_files)
  have docs1: "map_of (files st1) (doc_name i) =
      (if i < length cards then Some (File (card_doc i (cards ! i))) else None)" for i
    using run_files_doc [OF assms(1), of i] run_files_stale [OF assms(1), of "doc_name i"]
    by (simp add: stale_name_doc_name)
  have "\<forall>j<length ?cs. card_name (0 + j) (?cs ! j) \<noteq> None \<and>
          map_of (files ?st0) (doc_name (0 + j)) = Some (File (card_doc (0 + j) (?cs ! j)))"
    using run_card_name [OF assms(1)] assms(2) by (simp add: docs1 os_makedirs_def)
  from sync_loop_skip [OF this] sync
  have sta: "files sta = files st1" "written sta = 0" "skipped sta = m"
    using m by (auto simp: os_makedirs_def)
  have docs2: "map_of (files st2) (doc_name i) =
      (if i < m then map_of (files st1) (doc_name i) else None)" for i
    using f m sta(1) by (simp add: doc_name_not_index stale_name_doc_name)
  show "written st2 = 0" and "skipped st2 = m"
    using eqs sta by simp_all
  show "{i. map_of (files st1) (doc_name i) \<noteq> None \<and> map_of (files st2) (doc_name i) = None}
           = {m..<length cards}"
    using assms(2) by (auto simp: docs1 docs2)
  show "map_of (files st2) n = map_of (files st1) n"
    if "n \<noteq> ''index.json'' \<and> \<not> stale_name m n" for n
    using f m sta(1) that by simp
  show "map_of (files st1) (doc_name i) \<noteq> None" if "i < m" for i
    using assms(2) that by (simp add: docs1)
  show "map_of (files st2) (doc_name i) = map_of (files st1) (doc_name i)" if "i < m" for i
    using that by (simp add: docs2)
qed

theorem staleness_witness:
  "\<exists>st1 st2.
     run False (Some (JArr [JObj [(''name'', JStr ''A'')], JObj [], JObj [(''level'', JInt 2)]])) None
       = Inr st1 \<and>
     run False (Some (JArr (take 1 [JObj [(''name'', JStr ''A'')], JObj [], JObj [(''level'', JInt 2)]])))
       (Some (files st1)) = Inr st2 \<and>
     written st2 = 0 \<and> skipped st2 = 1 \<and>
     map_of (files st2) (doc_name 0) = map_of (files st1) (doc_name 0) \<and>
     {i. map_of (files st1) (doc_name i) \<noteq> None \<and> map_of (files st2) (doc_name i) = None}
       = {1..<3}"
proof -
  let ?cards = "[JObj [(''name'', JStr ''A'')], JObj [], JObj [(''level'', JInt 2)]]"
  have "case run False (Some (JArr ?cards)) None of Inl e \<Rightarrow> False | Inr st1 \<Rightarrow> True"
    by code_simp
  then obtain st1 where 1: "run False (Some (JArr ?cards)) None = Inr st1"
    by (auto split: sum.splits)
  have l: "(1::nat) < length ?cards"
    by simp
  have r: "regular_dir (os_makedirs None)"
    by (simp add: regular_dir_def os_makedirs_def)
  note s = staleness [OF 1 l]
  from s [THEN conjunct1, rule_format, OF r] obtain st2 where
    2: "run False (Some (JArr (take 1 ?cards))) (Some (files st1)) = Inr st2" ..
  note c = s [THEN conjunct2, rule_format, OF 2]
  have "map_of (files st2) (doc_name 0) = map_of (files st1) (doc_name 0)"
    using c by simp
  moreover have "{i. map_of (files st1) (doc_name i) \<noteq> None \<and>
                     map_of (files st2) (doc_name i) = None} = {1..<3}"
    using c by (simp add: numeral_3_eq_3)
  moreover have "written st2 = 0" "skipped st2 = 1"
    using c by simp_all
  ultimately show ?thesis
    using 1 2 by (intro exI [of _ st1] exI [of _ st2] conjI)
qed

text \<open>
  C2 (the reconciler's rule), as the code has it. Let no two entries of the directory
  share a name, and let no entry whose name ends in \<^verbatim>\<open>.json\<close> be a sub-directory. Then the
  reconciler completes. An entry whose name does not end in \<^verbatim>\<open>.json\<close> is never looked
  at and stays as it is, even when its name reads as a number; so does the index file. An
  entry named by a stem and the suffix \<^verbatim>\<open>.json\<close> is removed when \<^verbatim>\<open>int\<close> reads the stem as a
  number that is at least the number of cards, and stays as it is otherwise, without an
  error when \<^verbatim>\<open>int\<close> rejects the stem. The rule is stated for the stems in which \<^verbatim>\<open>.json\<close>
  does not occur again.
\<close>

theorem reconciler_rule:
  assumes "distinct (os_listdir (files st))"
    and "\<forall>n. endswith n ''.json'' \<longrightarrow> map_of (files st) n \<noteq> Some Folder"
  shows "\<exists>st'. reconcile (os_listdir (files st)) st = Inr st' \<and>
           (\<forall>n. n = ''index.json'' \<or> \<not> endswith n ''.json'' \<longrightarrow>
                  map_of (files st') n = map_of (files st) n) \<and>
           (\<forall>stem. stem @ ''.json'' \<noteq> ''index.json'' \<and> \<not> has_substring ''.json'' stem \<longrightarrow>
                  map_of (files st') (stem @ ''.json'') =
                    (if \<exists>idx. py_int stem = Some idx \<and> int (total st) \<le> idx then None
                     else map_of (files st) (stem @ ''.json'')))"
proof -
  have "\<forall>n \<in> set (os_listdir (files st)).
          stale_name (total st) n \<longrightarrow> (\<exists>c. map_of (files st) n = Some (File c))"
  proof (intro ballI impI)
    fix n assume "n \<in> set (os_listdir (files st))" and s: "stale_name (total st) n"
    then obtain e where e: "map_of (files st) n = Some e"
      by (auto simp: listed_iff)
    from s have "endswith n ''.json''"
      by (simp add: stale_name_def)
    with assms(2) e show "\<exists>c. map_of (files st) n = Some (File c)"
      by (cases e) auto
  qed
  from reconcile_succeeds [OF assms(1) this]
  obtain st' where r: "reconcile (os_listdir (files st)) st = Inr st'" ..
  have after: "map_of (files st') n =
      (if stale_name (total st) n then None else map_of (files st) n)" for n
    using reconcile_Inr [OF r, of n] by (auto simp: listed_iff)
  have 1: "map_of (files st') n = map_of (files st) n"
    if "n = ''index.json'' \<or> \<not> endswith n ''.json''" for n
    using not_stale_without_suffix [OF that, of "total st"] by (simp add: after)
  have 2: "map_of (files st') (stem @ ''.json'') =
             (if \<exists>idx. py_int stem = Some idx \<and> int (total st) \<le> idx then None
              else map_of (files st) (stem @ ''.json''))"
    if "stem @ ''.json'' \<noteq> ''index.json'' \<and> \<not> has_substring ''.json'' stem" for stem
    using stale_name_stem [of stem "total st"] that by (simp only: after) simp
  from r 1 2 show ?thesis
    by (intro exI [of _ st'] conjI allI impI)
qed

theorem reconciler_rule_witness:
  "\<exists>st'. reconcile [''7'', ''7.json'', ''12.json'', ''x.json'', ''-1.json'', ''02.json'',
                     ''index.json'', ''sub'']
            \<lparr>files = [(''7'', File ''a''), (''7.json'', File ''b''), (''12.json'', File ''c''),
                      (''x.json'', File ''d''), (''-1.json'', File ''e''), (''02.json'', File ''f''),
                      (''index.json'', File ''g''), (''sub'', Folder)],
             index_map = [], written = 0, skipped = 0, total = 3, stale = 0\<rparr> = Inr st' \<and>
         map_of (files st') ''7'' = Some (File ''a'') \<and>
         map_of (files st') ''7.json'' = None \<and>
         map_of (files st') ''12.json'' = None \<and>
         map_of (files st') ''x.json'' = Some (File ''d'') \<and>
         map_of (files st') ''-1.json'' = Some (File ''e'') \<and>
         map_of (files st') ''02.json'' = Some (File ''f'') \<and>
         map_of (files st') ''index.json'' = Some (File ''g'') \<and>
         map_of (files st') ''sub'' = Some Folder"
proof -
  let ?st = "\<lparr>files = [(''7'', File ''a''), (''7.json'', File ''b''), (''12.json'', File ''c''),
                      (''x.json'', File ''d''), (''-1.json'', File ''e''), (''02.json'', File ''f''),
                      (''index.json'', File ''g''), (''sub'', Folder)],
             index_map = [], written = 0, skipped = 0, total = 3, stale = 0\<rparr>"
  have 1: "distinct (os_listdir (files ?st))"
    by (simp add: os_listdir_def)
  have 2: "\<forall>n. endswith n ''.json'' \<longrightarrow> map_of (files ?st) n \<noteq> Some Folder"
    by (simp add: endswith_def)
  from reconciler_rule [OF 1 2] obtain st' where
    r: "reconcile (os_listdir (files ?st)) ?st = Inr st'"
    and other: "\<forall>n. n = ''index.json'' \<or> \<not> endswith n ''.json'' \<longrightarrow>
                  map_of (files st') n = map_of (files ?st) n"
    and stems: "\<forall>stem. stem @ ''.json'' \<noteq> ''index.json'' \<and> \<not> has_substring ''.json'' stem \<longrightarrow>
                  map_of (files st') (stem @ ''.json'') =
                    (if \<exists>idx. py_int stem = Some idx \<and> int (total ?st) \<le> idx then None
                     else map_of (files ?st) (stem @ ''.json''))"
    by blast
  have ints: "py_int ''7'' = Some 7" "py_int ''12'' = Some 12" "py_int ''x'' = None"
    "py_int ''-1'' = Some (- 1)" "py_int ''02'' = Some 2"
    by code_simp+
  have "map_of (files st') ''7'' = Some (File ''a'')"
    "map_of (files st') ''index.json'' = Some (File ''g'')"
    "map_of (files st') ''sub'' = Some Folder"
    using other [rule_format, of "''7''"] other [rule_format, of "''index.json''"]
      other [rule_format, of "''sub''"]
    by (simp_all add: endswith_def)
  moreover have "map_of (files st') ''7.json'' = None"
    using stems [rule_format, of "''7''"] ints by simp
  moreover have "map_of (files st') ''12.json'' = None"
    using stems [rule_format, of "''12''"] ints by simp
  moreover have "map_of (files st') ''x.json'' = Some (File ''d'')"
    using stems [rule_format, of "''x''"] ints by simp
  moreover have "map_of (files st') ''-1.json'' = Some (File ''e'')"
    using stems [rule_format, of "''-1''"] ints by simp
  moreover have "map_of (files st') ''02.json'' = Some (File ''f'')"
    using stems [rule_format, of "''02''"] ints by simp
  ultimately show ?thesis
    using r by (intro exI [of _ st']) (simp add: os_listdir_def)
qed

text \<open>
  The claim C2 as the specification states it fails on a name without the suffix: \<^verbatim>\<open>7\<close>
  reads as the number 7, which is at least the number of cards of an empty input, and
  the run leaves the entry in place.
\<close>

theorem reconciler_rule_counterexample:
  "py_int ''7'' = Some 7 \<and>
   (\<exists>st. run False (Some (JArr [])) (Some [(''7'', File ''x'')]) = Inr st \<and>
         total st = 0 \<and> map_of (files st) ''7'' = Some (File ''x''))"
proof -
  have "py_int ''7'' = Some 7"
    by code_simp
  moreover have "case run False (Some (JArr [])) (Some [(''7'', File ''x'')]) of
                   Inl e \<Rightarrow> False
                 | Inr st \<Rightarrow> total st = 0 \<and> map_of (files st) ''7'' = Some (File ''x'')"
    by code_simp
  ultimately show ?thesis
    by (auto split: sum.splits)
qed

text \<open>
  Outside the rule above stands a name with \<^verbatim>\<open>.json\<close> inside its stem. The script takes
  every \<^verbatim>\<open>.json\<close> out of the name before \<^verbatim>\<open>int\<close> reads it, so it counts \<^verbatim>\<open>1.json2.json\<close> as
  12 and removes it, though the comment on the loop speaks of stale metadata files, which
  are named by an index alone.
\<close>

lemma reconcile_inner_json:
  "reconcile [''1.json2.json'']
     \<lparr>files = [(''1.json2.json'', File ''x'')], index_map = [], written = 0, skipped = 0,
      total = 0, stale = 0\<rparr> =
   Inr \<lparr>files = [], index_map = [], written = 0, skipped = 0, total = 0, stale = 1\<rparr>"
  by code_simp

text \<open>
  C9 (input errors), as the code has it. When loading the input fails, the run aborts
  with every entry of an existing output directory untouched; an output directory that
  did not exist has been created, empty, because the script calls \<^verbatim>\<open>os.makedirs\<close> before
  it loads the input.
\<close>

theorem load_failure:
  "run force None (Some d) = Inl (LoadError, Some d) \<and>
   run force None None = Inl (LoadError, Some [])"
  by (simp add: run_def os_makedirs_def)

theorem load_failure_witness:
  "run False None (Some [(''0.json'', File ''old''), (''sub'', Folder)]) =
     Inl (LoadError, Some [(''0.json'', File ''old''), (''sub'', Folder)])"
  using load_failure [of False "[(''0.json'', File ''old''), (''sub'', Folder)]"] by simp

text \<open>
  The claim C9 as the specification states it fails where the output directory does not
  exist: after the failed load it does.
\<close>

theorem load_failure_counterexample:
  "\<exists>out. run False None None = Inl (LoadError, out) \<and> out \<noteq> None"
  by (simp add: run_def os_makedirs_def)

text \<open>
  C6 (the properties field), as the code has it. The document has a properties field
  exactly when the theme of the record is a dictionary that is not empty; the field is
  then the dictionary with the one key \<^verbatim>\<open>theme\<close> and the whole theme as its value. The
  document never carries an empty properties dictionary.
\<close>

theorem properties_field:
  "map_of (build_metadata crd idx) ''properties'' =
     (if truthy (dict_get crd ''theme'') \<and> is_dict (dict_get crd ''theme'')
      then Some (JObj [(''theme'', dict_get crd ''theme'')]) else None) \<and>
   map_of (build_metadata crd idx) ''properties'' \<noteq> Some (JObj [])"
  by (simp add: build_metadata_def Let_def)

theorem properties_field_witness:
  "map_of (build_metadata [(''theme'', JObj [(''background'', JStr ''#fff'')])] 0) ''properties'' =
     Some (JObj [(''theme'', JObj [(''background'', JStr ''#fff'')])]) \<and>
   map_of (build_metadata [(''name'', JStr ''A'')] 0) ''properties'' = None"
  using properties_field [of "[(''theme'', JObj [(''background'', JStr ''#fff'')])]" 0]
    properties_field [of "[(''name'', JStr ''A'')]" 0]
  by (simp add: dict_get_def dict_get_default_def)

text \<open>
  The claim C6 as the specification states it fails for a record whose theme is present
  but empty, or present but not a dictionary: the document has no properties field.
\<close>

theorem properties_field_counterexample:
  "map_of [(''theme'', JObj [])] ''theme'' = Some (JObj []) \<and>
   map_of (build_metadata [(''theme'', JObj [])] 0) ''properties'' = None \<and>
   map_of [(''theme'', JStr ''dark'')] ''theme'' = Some (JStr ''dark'') \<and>
   map_of (build_metadata [(''theme'', JStr ''dark'')] 0) ''properties'' = None"
  by (simp add: build_metadata_def Let_def dict_get_def dict_get_default_def)

text \<open>
  C7 (stat traits). For each of the stat keys \<^verbatim>\<open>hp\<close>, \<^verbatim>\<open>manaCost\<close> and \<^verbatim>\<open>crit\<close>, with the
  display names \<^verbatim>\<open>HP\<close>, \<^verbatim>\<open>Mana Cost\<close> and \<^verbatim>\<open>Crit\<close>: the attribute list of the document
  has one trait of the display name, with the value as \<^verbatim>\<open>str\<close> writes it, when the field of
  the record is a dictionary with a truthy \<^verbatim>\<open>value\<close>, and none otherwise; it has one trait
  named display name and \<^verbatim>\<open>Gradient\<close>, with the colour, when the dictionary has a truthy
  \<^verbatim>\<open>color\<close> as well, and none otherwise; and the gradient trait then stands right behind
  the value trait. The witness is the record of the specification, an \<^verbatim>\<open>hp\<close> with a value
  and no colour.
\<close>

theorem stat_trait_emission:
  assumes "(stat_key, display) \<in> set stat_keys"
  shows "traits_of_type display (attributes (build_metadata crd idx)) =
           (if is_dict (dict_get crd stat_key) \<and> truthy (obj_get (dict_get crd stat_key) ''value'')
            then [trait display (JStr (py_str (obj_get (dict_get crd stat_key) ''value'')))]
            else []) \<and>
         traits_of_type (display @ '' Gradient'') (attributes (build_metadata crd idx)) =
           (if is_dict (dict_get crd stat_key) \<and> truthy (obj_get (dict_get crd stat_key) ''value'') \<and>
               truthy (obj_get (dict_get crd stat_key) ''color'')
            then [trait (display @ '' Gradient'') (obj_get (dict_get crd stat_key) ''color'')]
            else []) \<and>
         (is_dict (dict_get crd stat_key) \<and> truthy (obj_get (dict_get crd stat_key) ''value'') \<and>
          truthy (obj_get (dict_get crd stat_key) ''color'') \<longrightarrow>
          (\<exists>pre post. attributes (build_metadata crd idx) =
             pre @ [trait display (JStr (py_str (obj_get (dict_get crd stat_key) ''value''))),
                    trait (display @ '' Gradient'') (obj_get (dict_get crd stat_key) ''color'')]
                 @ post))"
proof -
  from assms have d: "display = ''HP'' \<or> display = ''Mana Cost'' \<or> display = ''Crit''"
    by (auto simp: stat_keys_def)
  then have std: "traits_of_type display (standard_traits crd) = []"
    "traits_of_type (display @ '' Gradient'') (standard_traits crd) = []"
    by (auto simp: traits_of_type_standard)
  from d have thd: "traits_of_type display (theme_traits (dict_get crd ''theme'')) = []"
    "traits_of_type (display @ '' Gradient'') (theme_traits (dict_get crd ''theme'')) = []"
    by (auto simp: traits_of_type_theme)
  have themed: "traits_of_type t (if c then theme_traits th else []) =
      (if c then traits_of_type t (theme_traits th) else [])" for t c th
    by simp
  have 1: "traits_of_type display (attributes (build_metadata crd idx)) =
      traits_of_type display (stat_traits crd (stat_key, display))"
    using traits_of_type_stats [OF assms, of crd]
    by (simp add: attributes_build_metadata std thd themed)
  have 2: "traits_of_type (display @ '' Gradient'') (attributes (build_metadata crd idx)) =
      traits_of_type (display @ '' Gradient'') (stat_traits crd (stat_key, display))"
    using traits_of_type_stats [OF assms, of crd]
    by (simp add: attributes_build_metadata std thd themed)
  have 3: "\<exists>pre post. attributes (build_metadata crd idx) =
             pre @ [trait display (JStr (py_str (obj_get (dict_get crd stat_key) ''value''))),
                    trait (display @ '' Gradient'') (obj_get (dict_get crd stat_key) ''color'')]
                 @ post"
    if "is_dict (dict_get crd stat_key) \<and> truthy (obj_get (dict_get crd stat_key) ''value'') \<and>
          truthy (obj_get (dict_get crd stat_key) ''color'')"
    using that by (intro stat_traits_adjacent [OF assms]) (simp add: stat_traits_eq)
  from 1 2 3 show ?thesis
    by (simp only: traits_of_type_stat_value traits_of_type_stat_gradient) blast
qed

theorem stat_trait_emission_witness:
  "(''hp'', ''HP'') \<in> set stat_keys \<and>
   traits_of_type ''HP'' (attributes (build_metadata [(''hp'', JObj [(''value'', JInt 30)])] 0)) =
     [trait ''HP'' (JStr ''30'')] \<and>
   traits_of_type ''HP Gradient''
     (attributes (build_metadata [(''hp'', JObj [(''value'', JInt 30)])] 0)) = []"
proof -
  have m: "(''hp'', ''HP'') \<in> set stat_keys"
    by (simp add: stat_keys_def)
  have s: "py_str (JInt 30) = ''30''"
    by code_simp
  from stat_trait_emission [OF m, of "[(''hp'', JObj [(''value'', JInt 30)])]" 0] m s
  show ?thesis
    by (simp add: dict_get_def dict_get_default_def)
qed

text \<open>
  C10 (the same name twice). When the turn of the loop for the card at position \<open>i\<close>
  completes, the key it has stored in the index map is a string, and that string is the
  name field of the document \<^verbatim>\<open>build_metadata\<close> makes for the card, which is the document
  the turn leaves in the file \<^verbatim>\<open>i.json\<close>; for a card with no name field both are
  \<^verbatim>\<open>Card_\<close> followed by \<open>i\<close>.
\<close>

theorem name_consistency:
  assumes "sync_card force i (JObj crd) st = Inr st'"
  shows "\<exists>name. map_of (build_metadata crd i) ''name'' = Some (JStr name) \<and>
           index_map st' = AList.update name (index_entry i name) (index_map st) \<and>
           (map_of crd ''name'' = None \<longrightarrow> name = ''Card_'' @ str_nat i) \<and>
           map_of (files st') (doc_name i) = Some (File (serialize (JObj (build_metadata crd i))))"
proof -
  from sync_card_Inr(1) [OF assms] obtain name where
    n: "card_name i (JObj crd) = Some name"
    and im: "index_map st' = AList.update name (index_entry i name) (index_map st)"
    by blast
  from n have g: "dict_get_default crd ''name'' (JStr (''Card_'' @ str_nat i)) = JStr name"
    by (simp split: json.splits)
  then have "map_of (build_metadata crd i) ''name'' = Some (JStr name)"
    by (simp add: build_metadata_def Let_def)
  moreover from g have "map_of crd ''name'' = None \<longrightarrow> name = ''Card_'' @ str_nat i"
    by (auto simp: dict_get_default_def)
  moreover have "map_of (files st') (doc_name i) = Some (File (serialize (JObj (build_metadata crd i))))"
    using sync_card_Inr(2) [OF assms] by simp
  ultimately show ?thesis
    using im by - (rule exI [of _ name], simp)
qed

theorem name_consistency_witness:
  "\<exists>st'. sync_card False 3 (JObj [(''image'', JStr ''a.png'')])
            \<lparr>files = [], index_map = [], written = 0, skipped = 0, total = 4, stale = 0\<rparr> = Inr st' \<and>
         map_of (build_metadata [(''image'', JStr ''a.png'')] 3) ''name'' = Some (JStr ''Card_3'') \<and>
         map fst (index_map st') = [''Card_3'']"
proof -
  let ?st = "\<lparr>files = [], index_map = [], written = 0, skipped = 0, total = 4, stale = 0\<rparr>"
  have "case sync_card False 3 (JObj [(''image'', JStr ''a.png'')]) ?st of
          Inl e \<Rightarrow> False | Inr st' \<Rightarrow> True"
    by code_simp
  then obtain st' where
    1: "sync_card False 3 (JObj [(''image'', JStr ''a.png'')]) ?st = Inr st'"
    by (auto split: sum.splits)
  have 3: "str_nat 3 = ''3''"
    by code_simp
  from name_consistency [OF 1] 1 3 show ?thesis
    by auto
qed

text \<open>
  C8 (the index map). After a completed run every card has a name that is a string, its
  own or the made-up one. The entry of the index map under a name holds the position of
  the last card of that name, so that of two cards with one name the later one wins, and
  as slug the name in lower case with its runs of characters from \<^verbatim>\<open>[a-z0-9]\<close> joined by
  single hyphens; the map has no entry under any other name and no name twice; and the
  index file holds this map. The witness is the input of the specification, the names
  \<^verbatim>\<open>Alpha Beta\<close>, \<^verbatim>\<open>Gamma!!\<close>, \<^verbatim>\<open>Alpha Beta\<close>.
\<close>

theorem index_map_correct:
  assumes "run force (Some (JArr cards)) fs = Inr st"
  shows "(\<forall>i<length cards. \<exists>name. card_name i (cards ! i) = Some name) \<and>
         (\<forall>i<length cards. \<forall>name.
            card_name i (cards ! i) = Some name \<and>
            (\<forall>j. i < j \<and> j < length cards \<longrightarrow> card_name j (cards ! j) \<noteq> Some name) \<longrightarrow>
            map_of (index_map st) name =
              Some (JObj [(''index'', JInt (int i)), (''slug'', JStr (slug_spec name))])) \<and>
         (\<forall>name. (\<forall>i<length cards. card_name i (cards ! i) \<noteq> Some name) \<longrightarrow>
            map_of (index_map st) name = None) \<and>
         distinct (map fst (index_map st)) \<and>
         map_of (files st) ''index.json'' = Some (File (dumps_indent 0 (JObj (index_map st))))"
proof -
  have im: "index_map st = index_entries 0 cards []"
    using run_counters(4) [OF assms] by simp
  have 1: "\<forall>i<length cards. \<exists>name. card_name i (cards ! i) = Some name"
    using run_card_name [OF assms] by simp
  have 2: "map_of (index_map st) name =
              Some (JObj [(''index'', JInt (int i)), (''slug'', JStr (slug_spec name))])"
    if "i < length cards" and "card_name i (cards ! i) = Some name"
      and "\<forall>j. i < j \<and> j < length cards \<longrightarrow> card_name j (cards ! j) \<noteq> Some name"
    for i name
    using index_entries_last [of i cards 0 name "[]"] that
    by (simp add: im slug_of_spec)
  have 3: "map_of (index_map st) name = None"
    if "\<forall>i<length cards. card_name i (cards ! i) \<noteq> Some name" for name
    using index_entries_other [of cards 0 name "[]"] that by (simp add: im)
  have 4: "distinct (map fst (index_map st))"
    unfolding im by (rule index_entries_distinct) simp
  from 1 2 3 4 run_files_index [OF assms] show ?thesis
    by blast
qed

theorem index_map_correct_witness:
  "\<exists>st. run False
           (Some (JArr [JObj [(''name'', JStr ''Alpha Beta'')], JObj [(''name'', JStr ''Gamma!!'')],
                        JObj [(''name'', JStr ''Alpha Beta'')]])) None = Inr st \<and>
        length (index_map st) = 2 \<and>
        map_of (index_map st) ''Alpha Beta'' =
          Some (JObj [(''index'', JInt 2), (''slug'', JStr ''alpha-beta'')]) \<and>
        map_of (index_map st) ''Gamma!!'' =
          Some (JObj [(''index'', JInt 1), (''slug'', JStr ''gamma'')])"
proof -
  let ?cards = "[JObj [(''name'', JStr ''Alpha Beta'')], JObj [(''name'', JStr ''Gamma!!'')],
                 JObj [(''name'', JStr ''Alpha Beta'')]]"
  have "case run False (Some (JArr ?cards)) None of
          Inl e \<Rightarrow> False | Inr st \<Rightarrow> length (index_map st) = 2"
    by code_simp
  then obtain st where st: "run False (Some (JArr ?cards)) None = Inr st"
    and len: "length (index_map st) = 2"
    by (auto split: sum.splits)
  note c = index_map_correct [OF st, THEN conjunct2, THEN conjunct1, rule_format]
  have s1: "slug_spec ''Alpha Beta'' = ''alpha-beta''" and s2: "slug_spec ''Gamma!!'' = ''gamma''"
    by code_simp+
  have a: "map_of (index_map st) ''Alpha Beta'' =
          Some (JObj [(''index'', JInt 2), (''slug'', JStr ''alpha-beta'')])"
    using c [of 2 "''Alpha Beta''"] s1
    by (simp add: dict_get_default_def)
  have g: "map_of (index_map st) ''Gamma!!'' =
          Some (JObj [(''index'', JInt 1), (''slug'', JStr ''gamma'')])"
  proof -
    have "card_name j (?cards ! j) \<noteq> Some ''Gamma!!''" if "1 < j \<and> j < length ?cards" for j
    proof -
      from that have "j = 2" by simp
      then show ?thesis by (simp add: dict_get_default_def)
    qed
    then have "\<forall>j. 1 < j \<and> j < length ?cards \<longrightarrow> card_name j (?cards ! j) \<noteq> Some ''Gamma!!''"
      by blast
    with c [of 1 "''Gamma!!''"] s2 show ?thesis
      by (simp add: dict_get_default_def)
  qed
  from st len a g show ?thesis by blast
qed

end
